theory Spec2Isabelle
  imports Complex_Main
begin

section \<open>Fixed-point decimals and integers of the SDK\<close>

text \<open>
  The matching code computes with the SDK types \<open>sdk.Int\<close> (a big integer) and
  \<open>sdk.Dec\<close> (a big integer scaled by \<open>10 ^ 18\<close>).  An \<open>sdk.Int\<close> is modelled as
  \<^typ>\<open>int\<close>; an \<open>sdk.Dec\<close> is modelled by its underlying scaled integer, so the decimal
  \<open>d\<close> stands for the rational \<open>d / 10 ^ 18\<close>.  The range check of the SDK (a panic beyond
  256 bits) is not part of the model: the integers are unbounded.

  Go's \<open>big.Int.Quo\<close> truncates towards zero; HOL's \<open>div\<close> on \<^typ>\<open>int\<close> rounds towards
  minus infinity, so the truncation is written out.
\<close>

type_synonym dec = int

definition Precision :: int where
  "Precision = 10 ^ 18"

definition Quo :: "int \<Rightarrow> int \<Rightarrow> int" where
  "Quo a b = sgn a * sgn b * (\<bar>a\<bar> div \<bar>b\<bar>)"

definition ToDec :: "int \<Rightarrow> dec" where
  "ToDec n = n * Precision"

definition MulInt :: "dec \<Rightarrow> int \<Rightarrow> dec" where
  "MulInt d n = d * n"

definition TruncateInt :: "dec \<Rightarrow> int" where
  "TruncateInt d = Quo d Precision"

text \<open>
  \<open>Dec.Ceil\<close>: quotient and remainder of the truncated division by the precision; the
  quotient is kept when the remainder is zero or negative and incremented otherwise.
  The remainder of a truncated division has the sign of the dividend.
\<close>

definition Ceil :: "dec \<Rightarrow> dec" where
  "Ceil d =
     (let quo = Quo d Precision; rem = d - quo * Precision
      in if rem = 0 then ToDec quo
         else if rem < 0 then ToDec quo
         else ToDec (quo + 1))"

datatype error =
    CannotMatchMoreThanOpen int int
  | DivisionByZero
  | IndexOutOfRange

text \<open>
  \<open>Dec.QuoTruncate\<close> multiplies the dividend by the precision twice, divides (truncating)
  by the divisor and chops one precision off again.  A zero divisor panics inside
  \<open>big.Int.Quo\<close>.
\<close>

definition QuoTruncate :: "dec \<Rightarrow> dec \<Rightarrow> error + dec" where
  "QuoTruncate d d2 =
     (if d2 = 0 then Inl DivisionByZero
      else Inr (Quo (Quo (d * Precision * Precision) d2) Precision))"

definition QuoInt64 :: "dec \<Rightarrow> int \<Rightarrow> dec" where
  "QuoInt64 d n = Quo d n"

subsection \<open>The roundings as the specification writes them\<close>

text \<open>
  The specification speaks of \<open>\<lfloor>P \<sqdot> a\<rfloor>\<close> and \<open>\<lceil>P \<sqdot> a\<rceil>\<close> for a price \<open>P\<close> and an integer
  amount \<open>a\<close>.  With \<open>P\<close> given by its scaled integer these are the floor and the ceiling
  of the rational \<open>P * a / 10 ^ 18\<close>.
\<close>

definition floor_mul :: "dec \<Rightarrow> int \<Rightarrow> int" where
  "floor_mul P a = \<lfloor>(of_int (P * a) :: rat) / of_int Precision\<rfloor>"

definition ceil_mul :: "dec \<Rightarrow> int \<Rightarrow> int" where
  "ceil_mul P a = \<lceil>(of_int (P * a) :: rat) / of_int Precision\<rceil>"

section \<open>The fill journal of package amm\<close>

datatype OrderDirection = Buy | Sell

text \<open>
  An order of package \<open>amm\<close> is used through its interface: direction, price and original
  amount are read and never written by the matching code.  The journal is a Go map keyed
  by the order (an interface value holding a pointer); \<open>order_id\<close> stands for that
  identity, so that two orders with equal data are still two keys.
\<close>

record Order =
  order_id :: nat
  GetDirection :: OrderDirection
  GetPrice :: dec
  GetAmount :: int

record MatchRecord =
  rec_Amount :: int
  rec_Price :: dec

record MatchResult =
  mr_OpenAmount :: int
  mr_MatchRecords :: "MatchRecord list"

type_synonym MatchContext = "Order \<rightharpoonup> MatchResult"

definition NewMatchContext :: MatchContext where
  "NewMatchContext = Map.empty"

definition OpenAmount :: "MatchContext \<Rightarrow> Order \<Rightarrow> int" where
  "OpenAmount ctx order = (case ctx order of None \<Rightarrow> GetAmount order | Some mr \<Rightarrow> mr_OpenAmount mr)"

text \<open>
  \<open>MatchOrder\<close> as state passing: the journal that the call leaves behind, together with
  the panic, if any.  The check comes before every write.
\<close>

definition MatchOrder_st :: "MatchContext \<Rightarrow> Order \<Rightarrow> int \<Rightarrow> dec \<Rightarrow> MatchContext \<times> error option" where
  "MatchOrder_st ctx order amt price =
     (let openAmt = OpenAmount ctx order
      in if amt > openAmt then (ctx, Some (CannotMatchMoreThanOpen amt openAmt))
         else
           let mr = (case ctx order of
                       None \<Rightarrow> \<lparr>mr_OpenAmount = GetAmount order, mr_MatchRecords = []\<rparr>
                     | Some mr \<Rightarrow> mr);
               mr1 = mr\<lparr>mr_OpenAmount := mr_OpenAmount mr - amt\<rparr>;
               mr2 = mr1\<lparr>mr_MatchRecords :=
                       mr_MatchRecords mr1 @ [\<lparr>rec_Amount = amt, rec_Price = price\<rparr>]\<rparr>
           in (ctx(order \<mapsto> mr2), None))"

text \<open>The same call with the panic as a value: \<open>Inl\<close> aborts whatever runs after it.\<close>

definition MatchOrder :: "MatchContext \<Rightarrow> Order \<Rightarrow> int \<Rightarrow> dec \<Rightarrow> error + MatchContext" where
  "MatchOrder ctx order amt price =
     (case MatchOrder_st ctx order amt price of
        (ctx', None) \<Rightarrow> Inr ctx'
      | (_, Some e) \<Rightarrow> Inl e)"

definition MatchOrderFull :: "MatchContext \<Rightarrow> Order \<Rightarrow> dec \<Rightarrow> error + MatchContext" where
  "MatchOrderFull ctx order price =
     (let openAmt = OpenAmount ctx order
      in if 0 < openAmt then MatchOrder ctx order (OpenAmount ctx order) price
         else Inr ctx)"

fun MatchOrdersFull :: "MatchContext \<Rightarrow> Order list \<Rightarrow> dec \<Rightarrow> error + MatchContext" where
  "MatchOrdersFull ctx [] price = Inr ctx"
| "MatchOrdersFull ctx (order # orders) price =
     (case MatchOrderFull ctx order price of
        Inl e \<Rightarrow> Inl e
      | Inr ctx' \<Rightarrow> MatchOrdersFull ctx' orders price)"

fun TotalOpenAmount_from :: "MatchContext \<Rightarrow> int \<Rightarrow> Order list \<Rightarrow> int" where
  "TotalOpenAmount_from ctx amt [] = amt"
| "TotalOpenAmount_from ctx amt (order # orders) =
     TotalOpenAmount_from ctx (amt + OpenAmount ctx order) orders"

definition TotalOpenAmount :: "MatchContext \<Rightarrow> Order list \<Rightarrow> int" where
  "TotalOpenAmount ctx orders = TotalOpenAmount_from ctx 0 orders"

definition MatchedAmount :: "MatchContext \<Rightarrow> Order \<Rightarrow> int" where
  "MatchedAmount ctx order =
     (case ctx order of None \<Rightarrow> 0 | Some mr \<Rightarrow> GetAmount order - mr_OpenAmount mr)"

section \<open>MatchOrder\<close>

text \<open>
  Claim C6.  \<open>MatchOrder\<close> with an amount that does not exceed the order's open amount in
  the journal creates the order's entry (starting from the order's original amount and no
  records) or extends the existing one: the record \<open>(amount, price)\<close> is appended and the
  journaled open amount is decremented by the amount.  With an amount above the open
  amount the call panics and the journal is the one it was given.
\<close>

theorem MatchOrder_post:
  "(amt \<le> OpenAmount ctx order \<longrightarrow>
      MatchOrder_st ctx order amt price =
        (ctx(order \<mapsto>
           \<lparr>mr_OpenAmount = OpenAmount ctx order - amt,
            mr_MatchRecords =
              (case ctx order of None \<Rightarrow> [] | Some mr \<Rightarrow> mr_MatchRecords mr)
                @ [\<lparr>rec_Amount = amt, rec_Price = price\<rparr>]\<rparr>), None)) \<and>
   (amt > OpenAmount ctx order \<longrightarrow>
      MatchOrder_st ctx order amt price =
        (ctx, Some (CannotMatchMoreThanOpen amt (OpenAmount ctx order))) \<and>
      MatchOrder ctx order amt price =
        Inl (CannotMatchMoreThanOpen amt (OpenAmount ctx order)))"
proof (cases "ctx order")
  case None
  then show ?thesis
    by (simp add: MatchOrder_st_def MatchOrder_def OpenAmount_def Let_def)
next
  case (Some mr)
  then show ?thesis
    by (cases mr) (simp add: MatchOrder_st_def MatchOrder_def OpenAmount_def Let_def)
qed


theorem MatchOrder_post_witness:
  "(3::int) \<le> OpenAmount Map.empty \<lparr>order_id = 1, GetDirection = Buy, GetPrice = 5, GetAmount = 10\<rparr> \<and>
   MatchOrder_st Map.empty \<lparr>order_id = 1, GetDirection = Buy, GetPrice = 5, GetAmount = 10\<rparr> 3 5 =
     ([\<lparr>order_id = 1, GetDirection = Buy, GetPrice = 5, GetAmount = 10\<rparr> \<mapsto>
         \<lparr>mr_OpenAmount = 7, mr_MatchRecords = [\<lparr>rec_Amount = 3, rec_Price = 5\<rparr>]\<rparr>], None) \<and>
   (30::int) > OpenAmount Map.empty \<lparr>order_id = 1, GetDirection = Buy, GetPrice = 5, GetAmount = 10\<rparr> \<and>
   MatchOrder_st Map.empty \<lparr>order_id = 1, GetDirection = Buy, GetPrice = 5, GetAmount = 10\<rparr> 30 5 =
     (Map.empty, Some (CannotMatchMoreThanOpen 30 10))"
  using MatchOrder_post [of 3 Map.empty "\<lparr>order_id = 1, GetDirection = Buy, GetPrice = 5, GetAmount = 10\<rparr>" 5]
    MatchOrder_post [of 30 Map.empty "\<lparr>order_id = 1, GetDirection = Buy, GetPrice = 5, GetAmount = 10\<rparr>" 5]
  by (simp add: OpenAmount_def)

section \<open>Matching at a price in package types\<close>

text \<open>
  Modelled from the spec: the \<open>Order\<close> interface of package \<open>types\<close> and its
  implementations are not among the sources; \<open>MatchOrders\<close> and
  \<open>FindLastMatchableOrders\<close> use it through \<open>GetOpenAmount\<close>, \<open>SetOpenAmount\<close>,
  \<open>DecrRemainingOfferCoin\<close>, \<open>IncrReceivedDemandCoin\<close> and \<open>SetMatched\<close>.  The
  specification gives an order the mutable properties open amount, remaining offer coin,
  received demand coin and the matched flag; each accessor reads or writes the property
  its name says, the decrement subtracts and the increment adds.
\<close>

record types_Order =
  open_amount :: int
  remaining_offer_coin :: int
  received_demand_coin :: int
  matched :: bool

definition GetOpenAmount :: "types_Order \<Rightarrow> int" where
  "GetOpenAmount order = open_amount order"

definition SetOpenAmount :: "int \<Rightarrow> types_Order \<Rightarrow> types_Order" where
  "SetOpenAmount amt order = order\<lparr>open_amount := amt\<rparr>"

definition DecrRemainingOfferCoin :: "int \<Rightarrow> types_Order \<Rightarrow> types_Order" where
  "DecrRemainingOfferCoin amt order = order\<lparr>remaining_offer_coin := remaining_offer_coin order - amt\<rparr>"

definition IncrReceivedDemandCoin :: "int \<Rightarrow> types_Order \<Rightarrow> types_Order" where
  "IncrReceivedDemandCoin amt order = order\<lparr>received_demand_coin := received_demand_coin order + amt\<rparr>"

definition SetMatched :: "bool \<Rightarrow> types_Order \<Rightarrow> types_Order" where
  "SetMatched m order = order\<lparr>matched := m\<rparr>"

text \<open>
  Modelled from the spec: \<open>TotalOpenAmount\<close> of package \<open>types\<close> is not among the sources;
  it is the sum of the open amounts of the orders.
\<close>

definition types_TotalOpenAmount :: "types_Order list \<Rightarrow> int" where
  "types_TotalOpenAmount orders = sum_list (map GetOpenAmount orders)"

subsection \<open>FindLastMatchableOrders\<close>

record Side =
  side_orders :: "types_Order list"
  totalOpenAmt :: int
  idx :: nat
  partialMatchAmt :: int

text \<open>
  One pass of the inner loop body for one direction.  \<open>None\<close> is the early
  \<open>return ..., false\<close>; otherwise the two sides as the pass leaves them and whether the
  pass kept \<open>ok\<close> (it clears it when it drops the side's last order).
\<close>

definition visit_side :: "dec \<Rightarrow> OrderDirection \<Rightarrow> Side \<Rightarrow> Side \<Rightarrow> (Side \<times> Side \<times> bool) option" where
  "visit_side matchPrice dir buySide sellSide =
     (let side = (case dir of Buy \<Rightarrow> buySide | Sell \<Rightarrow> sellSide);
          i = idx side;
          order = side_orders side ! i;
          matchAmt = min (totalOpenAmt buySide) (totalOpenAmt sellSide);
          otherOrdersAmt = totalOpenAmt side - GetOpenAmount order;
          side1 = side\<lparr>partialMatchAmt := matchAmt - otherOrdersAmt\<rparr>
      in if otherOrdersAmt \<ge> matchAmt \<or>
            (dir = Sell \<and> TruncateInt (MulInt matchPrice (partialMatchAmt side1)) = 0)
         then
           if i = 0 then None
           else
             let side2 = side1\<lparr>totalOpenAmt := totalOpenAmt side1 - GetOpenAmount order,
                                idx := i - 1\<rparr>
             in (case dir of
                   Buy \<Rightarrow> Some (side2, sellSide, False)
                 | Sell \<Rightarrow> Some (buySide, side2, False))
         else
           (case dir of
              Buy \<Rightarrow> Some (side1, sellSide, True)
            | Sell \<Rightarrow> Some (buySide, side1, True)))"

lemma visit_side_measure:
  "visit_side P dir b s = Some (b', s', ok) \<Longrightarrow>
     idx b' + idx s' \<le> idx b + idx s \<and> (\<not> ok \<longrightarrow> idx b' + idx s' < idx b + idx s)"
  by (cases dir) (auto simp: visit_side_def Let_def split: if_splits)

text \<open>
  The outer loop.  The inner loop ranges over a Go map with the two keys \<open>Buy\<close> and
  \<open>Sell\<close>, whose iteration order the language leaves open: \<open>sched n\<close> says whether
  round \<open>n\<close> of the outer loop visits the buy side first.
\<close>

function FindLast_loop ::
  "dec \<Rightarrow> (nat \<Rightarrow> bool) \<Rightarrow> nat \<Rightarrow> Side \<Rightarrow> Side \<Rightarrow> (nat \<times> nat \<times> int \<times> int) option" where
  "FindLast_loop matchPrice sched n buySide sellSide =
     (case visit_side matchPrice (if sched n then Buy else Sell) buySide sellSide of
        None \<Rightarrow> None
      | Some (b1, s1, ok1) \<Rightarrow>
          (case visit_side matchPrice (if sched n then Sell else Buy) b1 s1 of
             None \<Rightarrow> None
           | Some (b2, s2, ok2) \<Rightarrow>
               if ok1 \<and> ok2
               then Some (idx b2, idx s2, partialMatchAmt b2, partialMatchAmt s2)
               else FindLast_loop matchPrice sched (Suc n) b2 s2))"
  by pat_completeness auto
termination
proof (relation "measure (\<lambda>(P, sched, n, b, s). idx b + idx s)", goal_cases)
  case 1
  show ?case by simp
next
  case (2 P sched n b s x b1 y s1 ok1 x' b2 y' s2 ok2)
  then show ?case
    using visit_side_measure [of P "if sched n then Buy else Sell" b s b1 s1 ok1]
      visit_side_measure [of P "if sched n then Sell else Buy" b1 s1 b2 s2 ok2]
    by auto
qed

definition FindLastMatchableOrders ::
  "(nat \<Rightarrow> bool) \<Rightarrow> types_Order list \<Rightarrow> types_Order list \<Rightarrow> dec \<Rightarrow> (nat \<times> nat \<times> int \<times> int) option" where
  "FindLastMatchableOrders sched buyOrders sellOrders matchPrice =
     (if length buyOrders = 0 \<or> length sellOrders = 0 then None
      else
        FindLast_loop matchPrice sched 0
          \<lparr>side_orders = buyOrders, totalOpenAmt = types_TotalOpenAmount buyOrders,
           idx = length buyOrders - 1, partialMatchAmt = 0\<rparr>
          \<lparr>side_orders = sellOrders, totalOpenAmt = types_TotalOpenAmount sellOrders,
           idx = length sellOrders - 1, partialMatchAmt = 0\<rparr>)"

subsection \<open>MatchOrders\<close>

text \<open>
  \<open>MatchOrders\<close> writes to the orders it is given.  The orders are objects behind
  references, so the model has a store from references to order states, and the two
  arguments are lists of references.  The function returns the store it leaves behind
  and the quote coin dust (\<open>None\<close> for \<open>matched = false\<close>).
\<close>

type_synonym order_ref = nat

type_synonym store = "order_ref \<Rightarrow> types_Order"

definition buy_step :: "dec \<Rightarrow> order_ref list \<Rightarrow> nat \<Rightarrow> int \<Rightarrow> nat \<Rightarrow> store \<times> int \<Rightarrow> store \<times> int" where
  "buy_step matchPrice buyOrders bi pmb i = (\<lambda>(h, quoteCoinDust).
     let buyOrder = buyOrders ! i;
         receivedBaseCoinAmt = (if i < bi then GetOpenAmount (h buyOrder) else pmb);
         paidQuoteCoinAmt = TruncateInt (Ceil (MulInt matchPrice receivedBaseCoinAmt));
         h1 = h(buyOrder := SetOpenAmount (GetOpenAmount (h buyOrder) - receivedBaseCoinAmt) (h buyOrder));
         h2 = h1(buyOrder := DecrRemainingOfferCoin paidQuoteCoinAmt (h1 buyOrder));
         h3 = h2(buyOrder := IncrReceivedDemandCoin receivedBaseCoinAmt (h2 buyOrder));
         h4 = h3(buyOrder := SetMatched True (h3 buyOrder))
     in (h4, quoteCoinDust + paidQuoteCoinAmt))"

definition sell_step :: "dec \<Rightarrow> order_ref list \<Rightarrow> nat \<Rightarrow> int \<Rightarrow> nat \<Rightarrow> store \<times> int \<Rightarrow> store \<times> int" where
  "sell_step matchPrice sellOrders si pms i = (\<lambda>(h, quoteCoinDust).
     let sellOrder = sellOrders ! i;
         paidBaseCoinAmt = (if i < si then GetOpenAmount (h sellOrder) else pms);
         receivedQuoteCoinAmt = TruncateInt (MulInt matchPrice paidBaseCoinAmt);
         h1 = h(sellOrder := SetOpenAmount (GetOpenAmount (h sellOrder) - paidBaseCoinAmt) (h sellOrder));
         h2 = h1(sellOrder := DecrRemainingOfferCoin paidBaseCoinAmt (h1 sellOrder));
         h3 = h2(sellOrder := IncrReceivedDemandCoin receivedQuoteCoinAmt (h2 sellOrder));
         h4 = h3(sellOrder := SetMatched True (h3 sellOrder))
     in (h4, quoteCoinDust - receivedQuoteCoinAmt))"

definition MatchOrders ::
  "(nat \<Rightarrow> bool) \<Rightarrow> store \<Rightarrow> order_ref list \<Rightarrow> order_ref list \<Rightarrow> dec \<Rightarrow> store \<times> int option" where
  "MatchOrders sched h buyOrders sellOrders matchPrice =
     (case FindLastMatchableOrders sched (map h buyOrders) (map h sellOrders) matchPrice of
        None \<Rightarrow> (h, None)
      | Some (bi, si, pmb, pms) \<Rightarrow>
          (case fold (buy_step matchPrice buyOrders bi pmb) [0..<Suc bi] (h, 0) of
             (h1, dust1) \<Rightarrow>
               (case fold (sell_step matchPrice sellOrders si pms) [0..<Suc si] (h1, dust1) of
                  (h2, dust2) \<Rightarrow> (h2, Some dust2))))"

text \<open>Schedules and order states used in the examples.\<close>

definition buy_first :: "nat \<Rightarrow> bool" where
  "buy_first n = True"

definition sell_first :: "nat \<Rightarrow> bool" where
  "sell_first n = False"

definition fresh_order :: "int \<Rightarrow> int \<Rightarrow> types_Order" where
  "fresh_order amt offer =
     \<lparr>open_amount = amt, remaining_offer_coin = offer, received_demand_coin = 0, matched = False\<rparr>"

subsection \<open>Facts about the roundings\<close>

lemma Precision_pos: "0 < Precision" by (simp add: Precision_def)

lemma Quo_nonneg: "0 \<le> a \<Longrightarrow> 0 < b \<Longrightarrow> Quo a b = a div b"
  by (cases "a = 0") (simp_all add: Quo_def)

lemma Quo_neg: "a < 0 \<Longrightarrow> 0 < b \<Longrightarrow> Quo a b = - ((- a) div b)"
  by (simp add: Quo_def)

lemma Quo_mult_self: "0 < b \<Longrightarrow> Quo (n * b) b = n"
proof (cases "0 \<le> n")
  case True
  assume "0 < b"
  with True show ?thesis by (simp add: Quo_nonneg)
next
  case False
  assume b: "0 < b"
  with False have neg: "n * b < 0" by (simp add: mult_less_0_iff)
  have "(- (n * b)) div b = - n"
    using b by (metis mult_minus_left nonzero_mult_div_cancel_right less_irrefl)
  with neg b show ?thesis by (simp add: Quo_neg)
qed

lemma floor_mul_div: "floor_mul P a = (P * a) div Precision"
  unfolding floor_mul_def by (rule floor_divide_of_int_eq)

lemma ceil_mul_div: "ceil_mul P a = - ((- (P * a)) div Precision)"
proof -
  have "ceil_mul P a = - \<lfloor>(of_int (- (P * a)) :: rat) / of_int Precision\<rfloor>"
    unfolding ceil_mul_def ceiling_def by simp
  then show ?thesis by (simp only: floor_divide_of_int_eq)
qed

lemma TruncateInt_MulInt_floor: "0 \<le> P * a \<Longrightarrow> TruncateInt (MulInt P a) = floor_mul P a"
  by (simp add: TruncateInt_def MulInt_def Quo_nonneg Precision_pos floor_mul_div)

lemma TruncateInt_ToDec: "TruncateInt (ToDec n) = n"
  by (simp add: TruncateInt_def ToDec_def Quo_mult_self Precision_pos)

lemma Ceil_ceiling: "TruncateInt (Ceil x) = - ((- x) div Precision)"
proof (cases "0 \<le> x")
  case True
  then have q: "Quo x Precision = x div Precision"
    by (simp add: Quo_nonneg Precision_pos)
  define r where "r = x - x div Precision * Precision"
  have r: "r = x mod Precision"
    by (simp add: r_def minus_div_mult_eq_mod)
  have m: "0 \<le> r"
    using Precision_pos by (simp add: r)
  have c: "Ceil x = (if r = 0 then ToDec (x div Precision) else ToDec (x div Precision + 1))"
    using m by (simp add: Ceil_def Let_def q r_def)
  show ?thesis
    using Precision_pos
    by (simp add: c TruncateInt_ToDec zdiv_zminus1_eq_if r)
next
  case False
  then have q: "Quo x Precision = - ((- x) div Precision)"
    by (simp add: Quo_neg Precision_pos)
  define r where "r = x - (- ((- x) div Precision)) * Precision"
  have "r = - ((- x) mod Precision)"
    by (simp add: r_def algebra_simps minus_div_mult_eq_mod [symmetric])
  moreover have "0 \<le> (- x) mod Precision"
    using Precision_pos by simp
  ultimately have "r \<le> 0" by simp
  then have "Ceil x = ToDec (- ((- x) div Precision))"
    by (simp add: Ceil_def Let_def q r_def)
  then show ?thesis
    by (simp add: TruncateInt_ToDec)
qed

lemma TruncateInt_Ceil: "TruncateInt (Ceil (MulInt P a)) = ceil_mul P a"
  by (simp add: Ceil_ceiling ceil_mul_div MulInt_def)

subsection \<open>What FindLastMatchableOrders returns\<close>

definition side_ok :: "Side \<Rightarrow> bool" where
  "side_ok sd \<longleftrightarrow>
     idx sd < length (side_orders sd) \<and>
     totalOpenAmt sd = sum_list (map GetOpenAmount (take (Suc (idx sd)) (side_orders sd)))"

definition opens_upto :: "types_Order list \<Rightarrow> nat \<Rightarrow> int" where
  "opens_upto orders n = sum_list (map GetOpenAmount (take n orders))"

lemma opens_upto_Suc:
  "i < length orders \<Longrightarrow> opens_upto orders (Suc i) = opens_upto orders i + GetOpenAmount (orders ! i)"
  by (simp add: opens_upto_def take_Suc_conv_app_nth)

definition found_post :: "dec \<Rightarrow> types_Order list \<Rightarrow> types_Order list \<Rightarrow> nat \<Rightarrow> nat \<Rightarrow> int \<Rightarrow> int \<Rightarrow> bool" where
  "found_post P bo so bi si pmb pms \<longleftrightarrow>
     bi < length bo \<and> si < length so \<and>
     pmb = min (opens_upto bo (Suc bi)) (opens_upto so (Suc si)) - opens_upto bo bi \<and>
     pms = min (opens_upto bo (Suc bi)) (opens_upto so (Suc si)) - opens_upto so si \<and>
     0 < pmb \<and> 0 < pms \<and> TruncateInt (MulInt P pms) \<noteq> 0"

lemma visit_side_ok:
  assumes "side_ok b" "side_ok s" "visit_side P dir b s = Some (b', s', ok)"
  shows "side_ok b' \<and> side_ok s' \<and> side_orders b' = side_orders b \<and> side_orders s' = side_orders s"
  using assms
  by (cases dir)
     (auto simp: visit_side_def Let_def side_ok_def take_Suc_conv_app_nth split: if_splits)

lemma visit_side_keep_Buy:
  assumes "side_ok b" "visit_side P Buy b s = Some (b', s', True)"
  shows "s' = s \<and> idx b' = idx b \<and> totalOpenAmt b' = totalOpenAmt b \<and>
         partialMatchAmt b' = min (totalOpenAmt b) (totalOpenAmt s) - opens_upto (side_orders b) (idx b) \<and>
         0 < partialMatchAmt b'"
  using assms
  by (auto simp: visit_side_def Let_def side_ok_def opens_upto_def take_Suc_conv_app_nth split: if_splits)

lemma visit_side_keep_Sell:
  assumes "side_ok s" "visit_side P Sell b s = Some (b', s', True)"
  shows "b' = b \<and> idx s' = idx s \<and> totalOpenAmt s' = totalOpenAmt s \<and>
         partialMatchAmt s' = min (totalOpenAmt b) (totalOpenAmt s) - opens_upto (side_orders s) (idx s) \<and>
         0 < partialMatchAmt s' \<and> TruncateInt (MulInt P (partialMatchAmt s')) \<noteq> 0"
  using assms
  by (auto simp: visit_side_def Let_def side_ok_def opens_upto_def take_Suc_conv_app_nth split: if_splits)

lemma FindLast_loop_unfold:
  "visit_side P (if sched n then Buy else Sell) b s = Some (b1, s1, ok1) \<Longrightarrow>
   visit_side P (if sched n then Sell else Buy) b1 s1 = Some (b2, s2, ok2) \<Longrightarrow>
   FindLast_loop P sched n b s =
     (if ok1 \<and> ok2 then Some (idx b2, idx s2, partialMatchAmt b2, partialMatchAmt s2)
      else FindLast_loop P sched (Suc n) b2 s2)"
  by (subst FindLast_loop.simps) simp

lemma FindLast_loop_None1:
  "visit_side P (if sched n then Buy else Sell) b s = None \<Longrightarrow> FindLast_loop P sched n b s = None"
  by (subst FindLast_loop.simps) simp

lemma FindLast_loop_None2:
  "visit_side P (if sched n then Buy else Sell) b s = Some (b1, s1, ok1) \<Longrightarrow>
   visit_side P (if sched n then Sell else Buy) b1 s1 = None \<Longrightarrow>
   FindLast_loop P sched n b s = None"
  by (subst FindLast_loop.simps) simp

lemma FindLast_loop_found:
  "side_ok b \<Longrightarrow> side_ok s \<Longrightarrow> FindLast_loop P sched n b s = Some (bi, si, pmb, pms) \<Longrightarrow>
     found_post P (side_orders b) (side_orders s) bi si pmb pms"
proof (induction P sched n b s rule: FindLast_loop.induct)
  case (1 P sched n b s)
  from "1.prems"(3) obtain b1 s1 ok1 where
    v1: "visit_side P (if sched n then Buy else Sell) b s = Some (b1, s1, ok1)"
    using FindLast_loop_None1 [of P sched n b s]
    by (cases "visit_side P (if sched n then Buy else Sell) b s") auto
  from "1.prems"(3) obtain b2 s2 ok2 where
    v2: "visit_side P (if sched n then Sell else Buy) b1 s1 = Some (b2, s2, ok2)"
    using FindLast_loop_None2 [where sched = sched and n = n, OF v1]
    by (cases "visit_side P (if sched n then Sell else Buy) b1 s1") auto
  note unf = FindLast_loop_unfold [where sched = sched and n = n, OF v1 v2]
  have ok1: "side_ok b1" "side_ok s1" "side_orders b1 = side_orders b" "side_orders s1 = side_orders s"
    using visit_side_ok [OF "1.prems"(1,2) v1] by simp_all
  have ok2: "side_ok b2" "side_ok s2" "side_orders b2 = side_orders b" "side_orders s2 = side_orders s"
    using visit_side_ok [OF ok1(1,2) v2] ok1 by simp_all
  show ?case
  proof (cases "ok1 \<and> ok2")
    case False
    then have "FindLast_loop P sched (Suc n) b2 s2 = Some (bi, si, pmb, pms)"
      using "1.prems"(3) unf by auto
    then have "found_post P (side_orders b2) (side_orders s2) bi si pmb pms"
      using "1.IH" [OF v1 refl refl v2 refl refl False ok2(1,2)] by simp
    then show ?thesis by (simp add: ok2)
  next
    case True
    then have res: "bi = idx b2" "si = idx s2" "pmb = partialMatchAmt b2" "pms = partialMatchAmt s2"
      using "1.prems"(3) unf by simp_all
    show ?thesis
    proof (cases "sched n")
      case True
      note sn = this
      from v1 v2 \<open>ok1 \<and> ok2\<close> have
        vb: "visit_side P Buy b s = Some (b1, s1, True)" and
        vs: "visit_side P Sell b1 s1 = Some (b2, s2, True)" by (simp_all add: sn)
      from visit_side_keep_Buy [OF "1.prems"(1) vb] visit_side_keep_Sell [OF ok1(2) vs]
        ok2 ok1 "1.prems"(1,2)
      show ?thesis
        by (auto simp: found_post_def res side_ok_def opens_upto_def)
    next
      case False
      note sn = this
      from v1 v2 \<open>ok1 \<and> ok2\<close> have
        vs: "visit_side P Sell b s = Some (b1, s1, True)" and
        vb: "visit_side P Buy b1 s1 = Some (b2, s2, True)" by (simp_all add: sn)
      from visit_side_keep_Sell [OF "1.prems"(2) vs] visit_side_keep_Buy [OF ok1(1) vb]
        ok2 ok1 "1.prems"(1,2)
      show ?thesis
        by (auto simp: found_post_def res side_ok_def opens_upto_def)
    qed
  qed
qed

lemma FindLastMatchableOrders_found:
  assumes "FindLastMatchableOrders sched bo so P = Some (bi, si, pmb, pms)"
  shows "found_post P bo so bi si pmb pms"
proof -
  from assms have ne: "bo \<noteq> []" "so \<noteq> []"
    by (auto simp: FindLastMatchableOrders_def split: if_splits)
  let ?b = "\<lparr>side_orders = bo, totalOpenAmt = types_TotalOpenAmount bo,
           idx = length bo - 1, partialMatchAmt = 0\<rparr>"
  let ?s = "\<lparr>side_orders = so, totalOpenAmt = types_TotalOpenAmount so,
           idx = length so - 1, partialMatchAmt = 0\<rparr>"
  have "side_ok ?b" "side_ok ?s"
    using ne by (simp_all add: side_ok_def types_TotalOpenAmount_def)
  moreover have "FindLast_loop P sched 0 ?b ?s = Some (bi, si, pmb, pms)"
    using assms ne by (simp add: FindLastMatchableOrders_def)
  ultimately show ?thesis
    using FindLast_loop_found [of ?b ?s P sched 0 bi si pmb pms] by simp
qed

subsection \<open>What MatchOrders leaves behind\<close>

text \<open>
  The amount filled at position \<open>k\<close> of a side: the whole open amount before the last
  matchable order, the partial amount at the last one.  \<open>commit_buy\<close> and \<open>commit_sell\<close>
  are the order states after a fill as the specification words them (with the buyer's
  offer coin decremented); \<open>commit_sell_trunc\<close> has the truncation of the code in place
  of the floor.
\<close>

definition fill_amt :: "store \<Rightarrow> order_ref list \<Rightarrow> nat \<Rightarrow> int \<Rightarrow> nat \<Rightarrow> int" where
  "fill_amt h refs lastIdx partialAmt k = (if k < lastIdx then GetOpenAmount (h (refs ! k)) else partialAmt)"

definition commit_buy :: "dec \<Rightarrow> int \<Rightarrow> types_Order \<Rightarrow> types_Order" where
  "commit_buy price amt order =
     \<lparr>open_amount = open_amount order - amt,
      remaining_offer_coin = remaining_offer_coin order - ceil_mul price amt,
      received_demand_coin = received_demand_coin order + amt,
      matched = True\<rparr>"

definition commit_sell :: "dec \<Rightarrow> int \<Rightarrow> types_Order \<Rightarrow> types_Order" where
  "commit_sell price amt order =
     \<lparr>open_amount = open_amount order - amt,
      remaining_offer_coin = remaining_offer_coin order - amt,
      received_demand_coin = received_demand_coin order + floor_mul price amt,
      matched = True\<rparr>"

definition commit_sell_trunc :: "dec \<Rightarrow> int \<Rightarrow> types_Order \<Rightarrow> types_Order" where
  "commit_sell_trunc price amt order =
     \<lparr>open_amount = open_amount order - amt,
      remaining_offer_coin = remaining_offer_coin order - amt,
      received_demand_coin = received_demand_coin order + TruncateInt (MulInt price amt),
      matched = True\<rparr>"

lemma fold_store:
  assumes step: "\<And>i h d. step i (h, d) = (h(bs ! i := g i (h (bs ! i))), d + c i (h (bs ! i)))"
    and dist: "distinct bs"
  shows "n \<le> length bs \<Longrightarrow>
     \<exists>h'. fold step [0..<n] (h, d :: int) = (h', d + (\<Sum>k<n. c k (h (bs ! k)))) \<and>
          (\<forall>k<n. h' (bs ! k) = g k (h (bs ! k))) \<and>
          (\<forall>r. r \<notin> set (take n bs) \<longrightarrow> h' r = h r)"
proof (induction n)
  case 0
  show ?case by simp
next
  case (Suc n)
  then have n: "n < length bs" by simp
  from Suc obtain h1 where
    f: "fold step [0..<n] (h, d) = (h1, d + (\<Sum>k<n. c k (h (bs ! k))))" and
    upd: "\<forall>k<n. h1 (bs ! k) = g k (h (bs ! k))" and
    frame: "\<forall>r. r \<notin> set (take n bs) \<longrightarrow> h1 r = h r"
    by auto
  have notin: "bs ! n \<notin> set (take n bs)"
    using dist n by (auto simp: in_set_conv_nth distinct_conv_nth)
  then have same: "h1 (bs ! n) = h (bs ! n)"
    using frame by simp
  have neq: "\<And>k. k < n \<Longrightarrow> bs ! k \<noteq> bs ! n"
    using dist n by (auto simp: distinct_conv_nth)
  let ?h' = "h1(bs ! n := g n (h (bs ! n)))"
  have "fold step [0..<Suc n] (h, d) = (?h', d + (\<Sum>k<Suc n. c k (h (bs ! k))))"
    by (simp add: f step same)
  moreover have "\<forall>k<Suc n. ?h' (bs ! k) = g k (h (bs ! k))"
    using upd neq by (auto simp: less_Suc_eq)
  moreover have "\<forall>r. r \<notin> set (take (Suc n) bs) \<longrightarrow> ?h' r = h r"
    using frame n by (auto simp: take_Suc_conv_app_nth)
  ultimately show ?case by blast
qed

lemma buy_step_eq:
  "buy_step P bs bi pmb i (h, d) =
     (h(bs ! i := commit_buy P (if i < bi then GetOpenAmount (h (bs ! i)) else pmb) (h (bs ! i))),
      d + ceil_mul P (if i < bi then GetOpenAmount (h (bs ! i)) else pmb))"
  by (cases "h (bs ! i)")
     (simp add: buy_step_def Let_def commit_buy_def TruncateInt_Ceil GetOpenAmount_def SetOpenAmount_def
       DecrRemainingOfferCoin_def IncrReceivedDemandCoin_def SetMatched_def)

lemma sell_step_eq:
  "sell_step P ss si pms i (h, d) =
     (h(ss ! i := commit_sell_trunc P (if i < si then GetOpenAmount (h (ss ! i)) else pms) (h (ss ! i))),
      d + (- TruncateInt (MulInt P (if i < si then GetOpenAmount (h (ss ! i)) else pms))))"
  by (cases "h (ss ! i)")
     (simp add: sell_step_def Let_def commit_sell_trunc_def GetOpenAmount_def SetOpenAmount_def
       DecrRemainingOfferCoin_def IncrReceivedDemandCoin_def SetMatched_def)

lemma buy_fold:
  assumes "distinct bs" "Suc bi \<le> length bs"
  shows "\<exists>h'. fold (buy_step P bs bi pmb) [0..<Suc bi] (h, d) =
             (h', d + (\<Sum>k<Suc bi. ceil_mul P (fill_amt h bs bi pmb k))) \<and>
          (\<forall>k<Suc bi. h' (bs ! k) = commit_buy P (fill_amt h bs bi pmb k) (h (bs ! k))) \<and>
          (\<forall>r. r \<notin> set (take (Suc bi) bs) \<longrightarrow> h' r = h r)"
  using fold_store [where step = "buy_step P bs bi pmb" and bs = bs and n = "Suc bi" and h = h and d = d
      and g = "\<lambda>i ord. commit_buy P (if i < bi then GetOpenAmount ord else pmb) ord"
      and c = "\<lambda>i ord. ceil_mul P (if i < bi then GetOpenAmount ord else pmb)", OF buy_step_eq assms]
  by (simp add: fill_amt_def)

lemma sell_fold:
  assumes "distinct ss" "Suc si \<le> length ss"
  shows "\<exists>h'. fold (sell_step P ss si pms) [0..<Suc si] (h, d) =
             (h', d + (\<Sum>k<Suc si. - TruncateInt (MulInt P (fill_amt h ss si pms k)))) \<and>
          (\<forall>k<Suc si. h' (ss ! k) = commit_sell_trunc P (fill_amt h ss si pms k) (h (ss ! k))) \<and>
          (\<forall>r. r \<notin> set (take (Suc si) ss) \<longrightarrow> h' r = h r)"
  using fold_store [where step = "sell_step P ss si pms" and bs = ss and n = "Suc si" and h = h and d = d
      and g = "\<lambda>i ord. commit_sell_trunc P (if i < si then GetOpenAmount ord else pms) ord"
      and c = "\<lambda>i ord. - TruncateInt (MulInt P (if i < si then GetOpenAmount ord else pms))", OF sell_step_eq assms]
  by (simp add: fill_amt_def)


lemma MatchOrders_found:
  assumes dist: "distinct (bs @ ss)"
    and run: "MatchOrders sched h bs ss P = (h', Some dust)"
  shows "\<exists>bi si pmb pms.
     FindLastMatchableOrders sched (map h bs) (map h ss) P = Some (bi, si, pmb, pms) \<and>
     bi < length bs \<and> si < length ss \<and>
     dust = (\<Sum>k<Suc bi. ceil_mul P (fill_amt h bs bi pmb k))
            - (\<Sum>k<Suc si. TruncateInt (MulInt P (fill_amt h ss si pms k))) \<and>
     (\<forall>k<Suc bi. h' (bs ! k) = commit_buy P (fill_amt h bs bi pmb k) (h (bs ! k))) \<and>
     (\<forall>k<Suc si. h' (ss ! k) = commit_sell_trunc P (fill_amt h ss si pms k) (h (ss ! k))) \<and>
     (\<forall>r. r \<notin> set (take (Suc bi) bs) \<union> set (take (Suc si) ss) \<longrightarrow> h' r = h r)"
proof -
  from run obtain bi si pmb pms where
    fl: "FindLastMatchableOrders sched (map h bs) (map h ss) P = Some (bi, si, pmb, pms)"
    by (auto simp: MatchOrders_def split: option.splits)
  from FindLastMatchableOrders_found [OF fl] have len: "bi < length bs" "si < length ss"
    by (simp_all add: found_post_def)
  from dist have db: "distinct bs" and ds: "distinct ss" and disj: "set bs \<inter> set ss = {}"
    by simp_all
  from buy_fold [OF db, of bi P pmb h 0] len obtain h1 where
    f1: "fold (buy_step P bs bi pmb) [0..<Suc bi] (h, 0) =
           (h1, (\<Sum>k<Suc bi. ceil_mul P (fill_amt h bs bi pmb k)))" and
    u1: "\<forall>k<Suc bi. h1 (bs ! k) = commit_buy P (fill_amt h bs bi pmb k) (h (bs ! k))" and
    fr1: "\<forall>r. r \<notin> set (take (Suc bi) bs) \<longrightarrow> h1 r = h r"
    by auto
  let ?d1 = "\<Sum>k<Suc bi. ceil_mul P (fill_amt h bs bi pmb k)"
  from sell_fold [OF ds, of si P pms h1 ?d1] len obtain h2 where
    f2: "fold (sell_step P ss si pms) [0..<Suc si] (h1, ?d1) =
           (h2, ?d1 + (\<Sum>k<Suc si. - TruncateInt (MulInt P (fill_amt h1 ss si pms k))))" and
    u2: "\<forall>k<Suc si. h2 (ss ! k) = commit_sell_trunc P (fill_amt h1 ss si pms k) (h1 (ss ! k))" and
    fr2: "\<forall>r. r \<notin> set (take (Suc si) ss) \<longrightarrow> h2 r = h1 r"
    by auto
  have "MatchOrders sched h bs ss P =
      (h2, Some (?d1 + (\<Sum>k<Suc si. - TruncateInt (MulInt P (fill_amt h1 ss si pms k)))))"
    by (simp only: MatchOrders_def fl f1 f2 option.case prod.case)
  with run have res: "h' = h2"
    "dust = ?d1 + (\<Sum>k<Suc si. - TruncateInt (MulInt P (fill_amt h1 ss si pms k)))"
    by (simp_all only: prod.inject option.inject)
  have s_in: "\<And>k. k < length ss \<Longrightarrow> ss ! k \<notin> set bs"
    using disj by (metis disjoint_iff nth_mem)
  have b_in: "\<And>k. k < length bs \<Longrightarrow> bs ! k \<notin> set ss"
    using disj by (metis disjoint_iff nth_mem)
  have h1s: "\<And>k. k < length ss \<Longrightarrow> h1 (ss ! k) = h (ss ! k)"
    using fr1 s_in by (meson in_set_takeD)
  have fa: "\<And>k. k < Suc si \<Longrightarrow> fill_amt h1 ss si pms k = fill_amt h ss si pms k"
    using h1s len by (simp add: fill_amt_def)
  have "dust = ?d1 - (\<Sum>k<Suc si. TruncateInt (MulInt P (fill_amt h ss si pms k)))"
    unfolding res(2) using fa by (simp add: sum_negf del: sum.lessThan_Suc)
  moreover have "\<forall>k<Suc bi. h' (bs ! k) = commit_buy P (fill_amt h bs bi pmb k) (h (bs ! k))"
  proof (intro allI impI)
    fix k assume k: "k < Suc bi"
    then have "bs ! k \<notin> set (take (Suc si) ss)"
      using b_in [of k] len by (meson in_set_takeD less_Suc_eq_le order_le_less_trans)
    then show "h' (bs ! k) = commit_buy P (fill_amt h bs bi pmb k) (h (bs ! k))"
      using fr2 u1 k by (simp add: res(1))
  qed
  moreover have "\<forall>k<Suc si. h' (ss ! k) = commit_sell_trunc P (fill_amt h ss si pms k) (h (ss ! k))"
    using u2 fa h1s len by (simp add: res(1))
  moreover have "\<forall>r. r \<notin> set (take (Suc bi) bs) \<union> set (take (Suc si) ss) \<longrightarrow> h' r = h r"
    using fr1 fr2 by (simp add: res(1))
  ultimately show ?thesis
    using fl len by blast
qed

subsection \<open>Properties of FindLastMatchableOrders and MatchOrders\<close>

definition ex_store :: store where
  "ex_store r = (if r = 0 then fresh_order 100 2000 else if r = 1 then fresh_order 30 2000 else fresh_order 110 110)"

definition ex_store' :: store where
  "ex_store' = ex_store
     (0 := \<lparr>open_amount = 0, remaining_offer_coin = 1000, received_demand_coin = 100, matched = True\<rparr>,
      1 := \<lparr>open_amount = 20, remaining_offer_coin = 1900, received_demand_coin = 10, matched = True\<rparr>,
      2 := \<lparr>open_amount = 0, remaining_offer_coin = 0, received_demand_coin = 1100, matched = True\<rparr>)"

lemma found_postD:
  assumes "found_post P bo so bi si pmb pms"
  shows "bi < length bo" "si < length so" "0 < pmb" "0 < pms"
    "TruncateInt (MulInt P pms) \<noteq> 0"
    "pmb = min (opens_upto bo (Suc bi)) (opens_upto so (Suc si)) - opens_upto bo bi"
    "pms = min (opens_upto bo (Suc bi)) (opens_upto so (Suc si)) - opens_upto so si"
  using assms unfolding found_post_def by blast+

lemma sum_take_nth:
  "n \<le> length xs \<Longrightarrow> sum_list (map f (take n xs)) = (\<Sum>k<n. (f (xs ! k) :: int))"
  by (induction n) (simp_all add: take_Suc_conv_app_nth)

lemma sum_fill_amt:
  assumes "bi < length refs"
  shows "(\<Sum>k<Suc bi. fill_amt h refs bi p k) = opens_upto (map h refs) bi + p"
proof -
  have "opens_upto (map h refs) bi = (\<Sum>k<bi. GetOpenAmount (map h refs ! k))"
    unfolding opens_upto_def using assms by (intro sum_take_nth) simp
  also have "\<dots> = (\<Sum>k<bi. fill_amt h refs bi p k)"
    using assms by (intro sum.cong) (simp_all add: fill_amt_def)
  finally show ?thesis by (simp add: fill_amt_def)
qed

text \<open>
  Claim C10.  Whenever \<open>FindLastMatchableOrders\<close> returns \<open>found = true\<close> for a price that
  is not negative, whatever order the two sides are visited in, both partial match
  amounts are strictly positive, each is at most the open amount of the order at the
  returned index of its side (an index inside its list), and the floor of the match price
  times the partial amount on the sell side is strictly positive.
\<close>

theorem FindLastMatchableOrders_partial:
  assumes "0 \<le> matchPrice"
    and "FindLastMatchableOrders sched buyOrders sellOrders matchPrice = Some (bi, si, pmb, pms)"
  shows "bi < length buyOrders \<and> si < length sellOrders \<and>
         0 < pmb \<and> pmb \<le> GetOpenAmount (buyOrders ! bi) \<and>
         0 < pms \<and> pms \<le> GetOpenAmount (sellOrders ! si) \<and>
         0 < floor_mul matchPrice pms"
proof -
  from FindLastMatchableOrders_found [OF assms(2)]
  have fp: "found_post matchPrice buyOrders sellOrders bi si pmb pms" .
  note len = found_postD(1,2) [OF fp] and pos = found_postD(3,4) [OF fp]
    and nz = found_postD(5) [OF fp] and eqs = found_postD(6,7) [OF fp]
  from eqs len have "pmb \<le> GetOpenAmount (buyOrders ! bi)" "pms \<le> GetOpenAmount (sellOrders ! si)"
    by (simp_all add: opens_upto_Suc)
  moreover have "0 \<le> matchPrice * pms"
    using assms(1) pos by simp
  then have "0 < floor_mul matchPrice pms"
    using nz Precision_pos TruncateInt_MulInt_floor [of matchPrice pms]
    by (simp add: floor_mul_div less_le pos_imp_zdiv_nonneg_iff)
  ultimately show ?thesis using len pos by simp
qed

lemma ex_find:
  "FindLastMatchableOrders buy_first (map ex_store [0, 1]) (map ex_store [2]) (10 * Precision) = Some (1, 0, 10, 110)"
  by (simp add: FindLastMatchableOrders_def ex_store_def fresh_order_def types_TotalOpenAmount_def
      GetOpenAmount_def visit_side_def buy_first_def TruncateInt_def MulInt_def Quo_def Precision_def)

theorem FindLastMatchableOrders_partial_witness:
  "(0::int) \<le> 10 * Precision \<and>
   FindLastMatchableOrders buy_first (map ex_store [0, 1]) (map ex_store [2]) (10 * Precision) = Some (1, 0, 10, 110) \<and>
   (1::nat) < length (map ex_store [0, 1]) \<and> (0::nat) < length (map ex_store [2]) \<and>
   (0::int) < 10 \<and> 10 \<le> GetOpenAmount (map ex_store [0, 1] ! 1) \<and>
   (0::int) < 110 \<and> 110 \<le> GetOpenAmount (map ex_store [2] ! 0) \<and>
   0 < floor_mul (10 * Precision) 110"
proof -
  have p: "(0::int) \<le> 10 * Precision" by (simp add: Precision_def)
  show ?thesis
    using FindLastMatchableOrders_partial [OF p ex_find] p ex_find by simp
qed

text \<open>
  Claim C7.  When \<open>FindLastMatchableOrders\<close> finds no matchable orders, which is the case
  in particular when either side is empty, \<open>MatchOrders\<close> returns not matched and the
  store it leaves behind is the store it was given: every order keeps its open amount,
  remaining offer coin, received demand coin and matched flag.
\<close>

theorem MatchOrders_no_match:
  "(buyOrders = [] \<or> sellOrders = [] \<longrightarrow>
      FindLastMatchableOrders sched (map h buyOrders) (map h sellOrders) matchPrice = None) \<and>
   (FindLastMatchableOrders sched (map h buyOrders) (map h sellOrders) matchPrice = None \<longrightarrow>
      MatchOrders sched h buyOrders sellOrders matchPrice = (h, None))"
  by (auto simp: FindLastMatchableOrders_def MatchOrders_def)

theorem MatchOrders_no_match_witness:
  "FindLastMatchableOrders buy_first (map ex_store [0, 1]) (map ex_store []) (10 * Precision) = None \<and>
   MatchOrders buy_first ex_store [0, 1] [] (10 * Precision) = (ex_store, None)"
  using MatchOrders_no_match [of "[0, 1]" "[]" buy_first ex_store "10 * Precision"]
  by simp


lemma commit_sell_trunc_eq:
  "0 \<le> P * amt \<Longrightarrow> commit_sell_trunc P amt ord = commit_sell P amt ord"
  by (simp add: commit_sell_trunc_def commit_sell_def TruncateInt_MulInt_floor)

lemma fill_amt_nonneg:
  assumes "\<forall>r\<in>set refs. 0 \<le> GetOpenAmount (h r)" "0 < p" "li < length refs" "k \<le> li"
  shows "0 \<le> fill_amt h refs li p k"
  using assms by (simp add: fill_amt_def)

lemma commit_buy_matched: "matched (commit_buy P amt ord)"
  by (simp add: commit_buy_def)

lemma commit_sell_matched: "matched (commit_sell P amt ord)"
  by (simp add: commit_sell_def)

text \<open>
  Claim C5, as amended.  When \<open>MatchOrders\<close> matches pairwise different orders at a price
  that is not negative, with no negative open amount on the sell side, it commits to the
  order at each position up to the last matchable one of its side the fill of that
  position, of base amount \<open>amount\<close> at the match price: the order's open amount is
  decremented by the amount; a buy order's remaining offer coin is decremented by the
  ceiling of price times amount paid and its received demand coin incremented by the
  amount; a sell order's remaining offer coin is decremented by the amount paid and its
  received demand coin incremented by the floor of price times amount received.  Every
  order with at least one fill, that is every order whose open amount the call changes,
  ends with \<open>matched = true\<close>.  An order at no such position is left as it was.
\<close>

theorem MatchOrders_commits_fills:
  assumes dist: "distinct (buyOrders @ sellOrders)"
    and price: "0 \<le> matchPrice"
    and opens: "\<forall>r\<in>set sellOrders. 0 \<le> GetOpenAmount (h r)"
    and run: "MatchOrders sched h buyOrders sellOrders matchPrice = (h', Some dust)"
  shows "\<exists>bi si pmb pms.
     FindLastMatchableOrders sched (map h buyOrders) (map h sellOrders) matchPrice = Some (bi, si, pmb, pms) \<and>
     (\<forall>k\<le>bi. h' (buyOrders ! k) =
        commit_buy matchPrice (fill_amt h buyOrders bi pmb k) (h (buyOrders ! k))) \<and>
     (\<forall>k\<le>si. h' (sellOrders ! k) =
        commit_sell matchPrice (fill_amt h sellOrders si pms k) (h (sellOrders ! k))) \<and>
     (\<forall>r. r \<notin> set (take (Suc bi) buyOrders) \<union> set (take (Suc si) sellOrders) \<longrightarrow> h' r = h r) \<and>
     (\<forall>r. open_amount (h' r) \<noteq> open_amount (h r) \<longrightarrow> matched (h' r))"
proof -
  from MatchOrders_found [OF dist run] obtain bi si pmb pms where
    fl: "FindLastMatchableOrders sched (map h buyOrders) (map h sellOrders) matchPrice = Some (bi, si, pmb, pms)"
    and len: "bi < length buyOrders" "si < length sellOrders"
    and ub: "\<forall>k<Suc bi. h' (buyOrders ! k) =
        commit_buy matchPrice (fill_amt h buyOrders bi pmb k) (h (buyOrders ! k))"
    and us: "\<forall>k<Suc si. h' (sellOrders ! k) =
        commit_sell_trunc matchPrice (fill_amt h sellOrders si pms k) (h (sellOrders ! k))"
    and fr: "\<forall>r. r \<notin> set (take (Suc bi) buyOrders) \<union> set (take (Suc si) sellOrders) \<longrightarrow> h' r = h r"
    by blast
  from FindLastMatchableOrders_found [OF fl] have pms: "0 < pms"
    by (rule found_postD)
  have us': "\<forall>k\<le>si. h' (sellOrders ! k) =
        commit_sell matchPrice (fill_amt h sellOrders si pms k) (h (sellOrders ! k))"
  proof (intro allI impI)
    fix k assume k: "k \<le> si"
    have "0 \<le> fill_amt h sellOrders si pms k"
      using fill_amt_nonneg [OF opens pms len(2) k] .
    then have "0 \<le> matchPrice * fill_amt h sellOrders si pms k"
      using price by simp
    then show "h' (sellOrders ! k) =
        commit_sell matchPrice (fill_amt h sellOrders si pms k) (h (sellOrders ! k))"
      using us k by (simp add: commit_sell_trunc_eq)
  qed
  have flagged: "\<forall>r. open_amount (h' r) \<noteq> open_amount (h r) \<longrightarrow> matched (h' r)"
  proof (intro allI impI)
    fix r assume ch: "open_amount (h' r) \<noteq> open_amount (h r)"
    then have "h' r \<noteq> h r" by auto
    with fr have "r \<in> set (take (Suc bi) buyOrders) \<or> r \<in> set (take (Suc si) sellOrders)"
      by blast
    then show "matched (h' r)"
    proof
      assume "r \<in> set (take (Suc bi) buyOrders)"
      then obtain k where k: "k < Suc bi" "r = buyOrders ! k"
        using len(1) by (auto simp: in_set_conv_nth)
      with ub have "h' r = commit_buy matchPrice (fill_amt h buyOrders bi pmb k) (h (buyOrders ! k))"
        by simp
      then show ?thesis by (simp add: commit_buy_matched)
    next
      assume "r \<in> set (take (Suc si) sellOrders)"
      then obtain k where k: "k \<le> si" "r = sellOrders ! k"
        using len(2) by (auto simp: in_set_conv_nth less_Suc_eq_le)
      with us' have "h' r = commit_sell matchPrice (fill_amt h sellOrders si pms k) (h (sellOrders ! k))"
        by simp
      then show ?thesis by (simp add: commit_sell_matched)
    qed
  qed
  have ub': "\<forall>k\<le>bi. h' (buyOrders ! k) =
        commit_buy matchPrice (fill_amt h buyOrders bi pmb k) (h (buyOrders ! k))"
    using ub by (simp add: less_Suc_eq_le)
  from fl ub' us' fr flagged show ?thesis
    by blast
qed

lemma ex_store_dist: "distinct ([0, 1] @ [2 :: nat])" by simp

lemma ex_store_opens: "\<forall>r\<in>set [2]. 0 \<le> GetOpenAmount (ex_store r)"
  by (simp add: ex_store_def fresh_order_def GetOpenAmount_def)

lemma ex_price: "(0::int) \<le> 10 * Precision" by (simp add: Precision_def)

lemma ex_run:
  "MatchOrders buy_first ex_store [0, 1] [2] (10 * Precision) = (ex_store', Some 0)"
  unfolding MatchOrders_def ex_find
  apply (simp add: buy_step_def sell_step_def Let_def ex_store'_def GetOpenAmount_def SetOpenAmount_def
       DecrRemainingOfferCoin_def IncrReceivedDemandCoin_def SetMatched_def)
  apply (simp add: ex_store_def fresh_order_def TruncateInt_def Ceil_def MulInt_def Quo_def ToDec_def Precision_def)
  done


theorem MatchOrders_commits_fills_witness:
  "distinct ([0, 1] @ [2 :: nat]) \<and> (0::int) \<le> 10 * Precision \<and> 0 \<le> GetOpenAmount (ex_store 2) \<and>
   MatchOrders buy_first ex_store [0, 1] [2] (10 * Precision) = (ex_store', Some 0) \<and>
   ex_store' 0 = commit_buy (10 * Precision) 100 (ex_store 0) \<and>
   ex_store' 1 = commit_buy (10 * Precision) 10 (ex_store 1) \<and>
   ex_store' 2 = commit_sell (10 * Precision) 110 (ex_store 2) \<and>
   ex_store' 3 = ex_store 3 \<and>
   matched (ex_store' 0) \<and> matched (ex_store' 1) \<and> matched (ex_store' 2)"
proof -
  from MatchOrders_commits_fills [OF ex_store_dist ex_price ex_store_opens ex_run]
  have b: "\<forall>k\<le>1. ex_store' ([0, 1] ! k) =
        commit_buy (10 * Precision) (fill_amt ex_store [0, 1] 1 10 k) (ex_store ([0, 1] ! k))"
    and s: "\<forall>k\<le>0. ex_store' ([2] ! k) =
        commit_sell (10 * Precision) (fill_amt ex_store [2] 0 110 k) (ex_store ([2] ! k))"
    and f: "\<forall>r. r \<notin> set (take (Suc 1) [0, 1]) \<union> set (take (Suc 0) [2]) \<longrightarrow> ex_store' r = ex_store r"
    unfolding ex_find by auto
  from b have "ex_store' 0 = commit_buy (10 * Precision) (fill_amt ex_store [0, 1] 1 10 0) (ex_store 0)"
    by (metis nth_Cons_0 zero_le)
  moreover from b have "ex_store' 1 = commit_buy (10 * Precision) (fill_amt ex_store [0, 1] 1 10 1) (ex_store 1)"
    by (metis One_nat_def nth_Cons_0 nth_Cons_Suc order_refl)
  moreover from s have "ex_store' 2 = commit_sell (10 * Precision) (fill_amt ex_store [2] 0 110 0) (ex_store 2)"
    by simp
  moreover from f have "ex_store' 3 = ex_store 3" by simp
  moreover have "matched (ex_store' 0)" "matched (ex_store' 1)" "matched (ex_store' 2)"
    by (simp_all add: ex_store'_def)
  moreover have "fill_amt ex_store [0, 1] 1 10 0 = 100" "fill_amt ex_store [0, 1] 1 10 1 = 10"
    "fill_amt ex_store [2] 0 110 0 = 110"
    by (simp_all add: fill_amt_def ex_store_def fresh_order_def GetOpenAmount_def)
  ultimately show ?thesis
    using ex_store_dist ex_price ex_store_opens ex_run by simp
qed

text \<open>
  The claim as stated has the buyer's remaining offer coin incremented.  Here the first
  buyer is filled 100 at price 10 and its remaining offer coin goes from 2000 down to
  1000, not up to 3000.
\<close>

theorem MatchOrders_buyer_offer_counterexample:
  "MatchOrders buy_first ex_store [0, 1] [2] (10 * Precision) = (ex_store', Some 0) \<and>
   open_amount (ex_store 0) - open_amount (ex_store' 0) = 100 \<and>
   ceil_mul (10 * Precision) 100 = 1000 \<and>
   remaining_offer_coin (ex_store 0) = 2000 \<and>
   remaining_offer_coin (ex_store' 0) = 1000 \<and>
   remaining_offer_coin (ex_store' 0) \<noteq> remaining_offer_coin (ex_store 0) + ceil_mul (10 * Precision) 100"
proof -
  have "open_amount (ex_store 0) - open_amount (ex_store' 0) = 100"
    "remaining_offer_coin (ex_store 0) = 2000" "remaining_offer_coin (ex_store' 0) = 1000"
    by (simp_all add: ex_store'_def ex_store_def fresh_order_def)
  moreover have "ceil_mul (10 * Precision) 100 = 1000"
    by (simp add: ceil_mul_div Precision_def)
  ultimately show ?thesis
    using ex_run by simp
qed

lemma sum_list_all_0: "\<forall>x\<in>set ys. g x = (0::int) \<Longrightarrow> sum_list (map g ys) = 0"
  by (induction ys) simp_all

lemma sum_list_prefix:
  assumes "n \<le> length xs" "\<forall>k. n \<le> k \<and> k < length xs \<longrightarrow> g (xs ! k) = (0::int)"
  shows "sum_list (map g xs) = (\<Sum>k<n. g (xs ! k))"
proof -
  have "\<forall>x\<in>set (drop n xs). g x = 0"
    using assms by (auto simp: in_set_conv_nth)
  then have z: "sum_list (map g (drop n xs)) = 0"
    by (rule sum_list_all_0)
  have "sum_list (map g xs) = sum_list (map g (take n xs)) + sum_list (map g (drop n xs))"
    by (metis append_take_drop_id map_append sum_list_append)
  then show ?thesis
    using z sum_take_nth [OF assms(1), of g] by simp
qed

lemma ceil_mul_0: "ceil_mul P 0 = 0"
  by (simp add: ceil_mul_div)

lemma floor_mul_0: "floor_mul P 0 = 0"
  by (simp add: floor_mul_div)

lemma commit_buy_open: "open_amount ord - open_amount (commit_buy P amt ord) = amt"
  by (simp add: commit_buy_def)

lemma commit_sell_open: "open_amount ord - open_amount (commit_sell_trunc P amt ord) = amt"
  by (simp add: commit_sell_trunc_def)

lemma nth_notin_take:
  assumes "distinct xs" "n \<le> k" "k < length xs"
  shows "xs ! k \<notin> set (take n xs)"
  using assms by (auto simp: in_set_conv_nth distinct_conv_nth)

text \<open>
  Claim C1.  For every call of \<open>MatchOrders\<close> that returns \<open>matched = true\<close>, on pairwise
  different orders, at a price that is not negative and with no negative open amount on
  the sell side: the total amount subtracted from the open amounts of the buy orders
  equals the total amount subtracted from the open amounts of the sell orders, and the
  returned quote coin dust is the sum over the buy fills \<open>b\<close> of \<open>\<lceil>P \<sqdot> b\<rceil>\<close> minus the sum
  over the sell fills \<open>s\<close> of \<open>\<lfloor>P \<sqdot> s\<rfloor>\<close>.  An order that is not matched has the fill 0,
  which adds nothing to either sum.
\<close>

theorem MatchOrders_conservation:
  assumes dist: "distinct (buyOrders @ sellOrders)"
    and price: "0 \<le> matchPrice"
    and opens: "\<forall>r\<in>set sellOrders. 0 \<le> GetOpenAmount (h r)"
    and run: "MatchOrders sched h buyOrders sellOrders matchPrice = (h', Some quoteCoinDust)"
  shows "(\<Sum>r\<leftarrow>buyOrders. open_amount (h r) - open_amount (h' r)) =
         (\<Sum>r\<leftarrow>sellOrders. open_amount (h r) - open_amount (h' r)) \<and>
         quoteCoinDust =
           (\<Sum>r\<leftarrow>buyOrders. ceil_mul matchPrice (open_amount (h r) - open_amount (h' r))) -
           (\<Sum>r\<leftarrow>sellOrders. floor_mul matchPrice (open_amount (h r) - open_amount (h' r)))"
proof -
  let ?P = matchPrice
  from MatchOrders_found [OF dist run] obtain bi si pmb pms where
    fl: "FindLastMatchableOrders sched (map h buyOrders) (map h sellOrders) ?P = Some (bi, si, pmb, pms)"
    and len: "bi < length buyOrders" "si < length sellOrders"
    and dust: "quoteCoinDust = (\<Sum>k<Suc bi. ceil_mul ?P (fill_amt h buyOrders bi pmb k))
            - (\<Sum>k<Suc si. TruncateInt (MulInt ?P (fill_amt h sellOrders si pms k)))"
    and ub: "\<forall>k<Suc bi. h' (buyOrders ! k) =
        commit_buy ?P (fill_amt h buyOrders bi pmb k) (h (buyOrders ! k))"
    and us: "\<forall>k<Suc si. h' (sellOrders ! k) =
        commit_sell_trunc ?P (fill_amt h sellOrders si pms k) (h (sellOrders ! k))"
    and fr: "\<forall>r. r \<notin> set (take (Suc bi) buyOrders) \<union> set (take (Suc si) sellOrders) \<longrightarrow> h' r = h r"
    by blast
  note fp = FindLastMatchableOrders_found [OF fl]
  from dist have db: "distinct buyOrders" and ds: "distinct sellOrders"
    and disj: "set buyOrders \<inter> set sellOrders = {}" by simp_all
  define fb where "fb r = open_amount (h r) - open_amount (h' r)" for r
  have b_in: "\<And>k. k < Suc bi \<Longrightarrow> fb (buyOrders ! k) = fill_amt h buyOrders bi pmb k"
    using ub by (simp add: fb_def commit_buy_open)
  have s_in: "\<And>k. k < Suc si \<Longrightarrow> fb (sellOrders ! k) = fill_amt h sellOrders si pms k"
    using us by (simp add: fb_def commit_sell_open)
  have b_out: "\<forall>k. Suc bi \<le> k \<and> k < length buyOrders \<longrightarrow> fb (buyOrders ! k) = 0"
  proof (intro allI impI)
    fix k assume k: "Suc bi \<le> k \<and> k < length buyOrders"
    then have "buyOrders ! k \<notin> set (take (Suc bi) buyOrders)"
      using nth_notin_take [OF db] by blast
    moreover have "buyOrders ! k \<notin> set sellOrders"
      using k disj by (metis disjoint_iff nth_mem)
    ultimately have "h' (buyOrders ! k) = h (buyOrders ! k)"
      using fr by (meson UnE in_set_takeD)
    then show "fb (buyOrders ! k) = 0" by (simp add: fb_def)
  qed
  have s_out: "\<forall>k. Suc si \<le> k \<and> k < length sellOrders \<longrightarrow> fb (sellOrders ! k) = 0"
  proof (intro allI impI)
    fix k assume k: "Suc si \<le> k \<and> k < length sellOrders"
    then have "sellOrders ! k \<notin> set (take (Suc si) sellOrders)"
      using nth_notin_take [OF ds] by blast
    moreover have "sellOrders ! k \<notin> set buyOrders"
      using k disj by (metis disjoint_iff nth_mem)
    ultimately have "h' (sellOrders ! k) = h (sellOrders ! k)"
      using fr by (meson UnE in_set_takeD)
    then show "fb (sellOrders ! k) = 0" by (simp add: fb_def)
  qed
  have lb: "Suc bi \<le> length buyOrders" and ls: "Suc si \<le> length sellOrders"
    using len by simp_all
  have sum_b: "(\<Sum>r\<leftarrow>buyOrders. fb r) = (\<Sum>k<Suc bi. fill_amt h buyOrders bi pmb k)"
    using sum_list_prefix [OF lb, of fb] b_out b_in by (simp del: sum.lessThan_Suc)
  have sum_s: "(\<Sum>r\<leftarrow>sellOrders. fb r) = (\<Sum>k<Suc si. fill_amt h sellOrders si pms k)"
    using sum_list_prefix [OF ls, of fb] s_out s_in by (simp del: sum.lessThan_Suc)
  have "(\<Sum>r\<leftarrow>buyOrders. fb r) = (\<Sum>r\<leftarrow>sellOrders. fb r)"
    unfolding sum_b sum_s sum_fill_amt [OF len(1)] sum_fill_amt [OF len(2)]
    using found_postD(6,7) [OF fp] by simp
  moreover have "(\<Sum>r\<leftarrow>buyOrders. ceil_mul ?P (fb r)) = (\<Sum>k<Suc bi. ceil_mul ?P (fill_amt h buyOrders bi pmb k))"
    using sum_list_prefix [OF lb, of "\<lambda>r. ceil_mul ?P (fb r)"] b_out b_in
    by (simp add: ceil_mul_0 del: sum.lessThan_Suc)
  moreover have "(\<Sum>r\<leftarrow>sellOrders. floor_mul ?P (fb r)) =
      (\<Sum>k<Suc si. TruncateInt (MulInt ?P (fill_amt h sellOrders si pms k)))"
  proof -
    have "\<And>k. k < Suc si \<Longrightarrow> TruncateInt (MulInt ?P (fill_amt h sellOrders si pms k)) =
        floor_mul ?P (fill_amt h sellOrders si pms k)"
    proof -
      fix k assume "k < Suc si"
      then have "0 \<le> fill_amt h sellOrders si pms k"
        using fill_amt_nonneg [OF opens found_postD(4) [OF fp] len(2), of k] by simp
      then have "0 \<le> ?P * fill_amt h sellOrders si pms k" using price by simp
      then show "TruncateInt (MulInt ?P (fill_amt h sellOrders si pms k)) =
        floor_mul ?P (fill_amt h sellOrders si pms k)"
        by (rule TruncateInt_MulInt_floor)
    qed
    then show ?thesis
      using sum_list_prefix [OF ls, of "\<lambda>r. floor_mul ?P (fb r)"] s_out s_in
      by (simp add: floor_mul_0 del: sum.lessThan_Suc)
  qed
  ultimately show ?thesis
    using dust by (simp add: fb_def)
qed

theorem MatchOrders_conservation_witness:
  "distinct ([0, 1] @ [2 :: nat]) \<and> (0::int) \<le> 10 * Precision \<and> 0 \<le> GetOpenAmount (ex_store 2) \<and>
   MatchOrders buy_first ex_store [0, 1] [2] (10 * Precision) = (ex_store', Some 0) \<and>
   (\<Sum>r\<leftarrow>[0, 1]. open_amount (ex_store r) - open_amount (ex_store' r)) = 110 \<and>
   (\<Sum>r\<leftarrow>[2]. open_amount (ex_store r) - open_amount (ex_store' r)) = 110 \<and>
   (0::int) =
     (\<Sum>r\<leftarrow>[0, 1]. ceil_mul (10 * Precision) (open_amount (ex_store r) - open_amount (ex_store' r))) -
     (\<Sum>r\<leftarrow>[2]. floor_mul (10 * Precision) (open_amount (ex_store r) - open_amount (ex_store' r)))"
proof -
  have "(\<Sum>r\<leftarrow>[2]. open_amount (ex_store r) - open_amount (ex_store' r)) = 110"
    by (simp add: ex_store_def ex_store'_def fresh_order_def)
  then show ?thesis
    using MatchOrders_conservation [OF ex_store_dist ex_price ex_store_opens ex_run]
      ex_store_dist ex_price ex_store_opens ex_run
    by simp
qed

section \<open>Sequences of journal operations\<close>

text \<open>
  The three mutating operations of the journal, as values, and a run of a sequence of
  them from a journal.  A panic ends the run; the only operation that can panic is
  \<open>MatchOrder\<close>, which leaves the journal as it was.
\<close>

datatype ctx_op =
    OpMatchOrder Order int dec
  | OpMatchOrderFull Order dec
  | OpMatchOrdersFull "Order list" dec

fun apply_op :: "MatchContext \<Rightarrow> ctx_op \<Rightarrow> error + MatchContext" where
  "apply_op ctx (OpMatchOrder order amt price) = MatchOrder ctx order amt price"
| "apply_op ctx (OpMatchOrderFull order price) = MatchOrderFull ctx order price"
| "apply_op ctx (OpMatchOrdersFull orders price) = MatchOrdersFull ctx orders price"

fun run_ops :: "MatchContext \<Rightarrow> ctx_op list \<Rightarrow> error + MatchContext" where
  "run_ops ctx [] = Inr ctx"
| "run_ops ctx (op # ops) =
     (case apply_op ctx op of Inl e \<Rightarrow> Inl e | Inr ctx' \<Rightarrow> run_ops ctx' ops)"

fun op_amount_nonneg :: "ctx_op \<Rightarrow> bool" where
  "op_amount_nonneg (OpMatchOrder order amt price) = (0 \<le> amt)"
| "op_amount_nonneg (OpMatchOrderFull order price) = True"
| "op_amount_nonneg (OpMatchOrdersFull orders price) = True"

text \<open>
  The invariant of a journal entry: the open amount is the order's amount minus the sum of
  the recorded amounts, and it is not negative.
\<close>

definition records_total :: "MatchResult \<Rightarrow> int" where
  "records_total mr = sum_list (map rec_Amount (mr_MatchRecords mr))"

definition ctx_inv :: "MatchContext \<Rightarrow> bool" where
  "ctx_inv ctx \<longleftrightarrow>
     (\<forall>order mr. ctx order = Some mr \<longrightarrow>
        mr_OpenAmount mr = GetAmount order - records_total mr \<and> 0 \<le> mr_OpenAmount mr)"

text \<open>Orders, operations and the journal used in the examples.\<close>

definition buy_order :: "nat \<Rightarrow> int \<Rightarrow> Order" where
  "buy_order n amt = \<lparr>order_id = n, GetDirection = Buy, GetPrice = 5 * Precision, GetAmount = amt\<rparr>"

definition ex_ops :: "ctx_op list" where
  "ex_ops = [OpMatchOrder (buy_order 1 10) 3 (5 * Precision),
             OpMatchOrderFull (buy_order 2 4) (5 * Precision),
             OpMatchOrdersFull [buy_order 1 10, buy_order 2 4] (5 * Precision)]"

definition ex_journal :: MatchContext where
  "ex_journal =
     [buy_order 1 10 \<mapsto>
        \<lparr>mr_OpenAmount = 0,
         mr_MatchRecords = [\<lparr>rec_Amount = 3, rec_Price = 5 * Precision\<rparr>,
                            \<lparr>rec_Amount = 7, rec_Price = 5 * Precision\<rparr>]\<rparr>,
      buy_order 2 4 \<mapsto>
        \<lparr>mr_OpenAmount = 0, mr_MatchRecords = [\<lparr>rec_Amount = 4, rec_Price = 5 * Precision\<rparr>]\<rparr>]"

subsection \<open>The invariant is kept\<close>

lemma MatchOrder_Inr:
  "MatchOrder ctx order amt price = Inr ctx' \<longleftrightarrow>
     amt \<le> OpenAmount ctx order \<and>
     ctx' = ctx(order \<mapsto>
           \<lparr>mr_OpenAmount = OpenAmount ctx order - amt,
            mr_MatchRecords =
              (case ctx order of None \<Rightarrow> [] | Some mr \<Rightarrow> mr_MatchRecords mr)
                @ [\<lparr>rec_Amount = amt, rec_Price = price\<rparr>]\<rparr>)"
proof (cases "ctx order")
  case None
  then show ?thesis
    by (auto simp: MatchOrder_st_def MatchOrder_def OpenAmount_def Let_def)
next
  case (Some mr)
  then show ?thesis
    by (cases mr) (auto simp: MatchOrder_st_def MatchOrder_def OpenAmount_def Let_def)
qed

lemma ctx_invD:
  "ctx_inv ctx \<Longrightarrow> ctx x = Some mr \<Longrightarrow>
     mr_OpenAmount mr = GetAmount x - records_total mr \<and> 0 \<le> mr_OpenAmount mr"
  unfolding ctx_inv_def by blast

lemma MatchOrder_keeps:
  assumes "ctx_inv ctx" "0 \<le> amt" "MatchOrder ctx order amt price = Inr ctx'"
  shows "ctx_inv ctx' \<and> (\<forall>x. OpenAmount ctx' x \<le> OpenAmount ctx x)"
proof -
  let ?old = "case ctx order of None \<Rightarrow> [] | Some mr \<Rightarrow> mr_MatchRecords mr"
  let ?new = "\<lparr>mr_OpenAmount = OpenAmount ctx order - amt,
            mr_MatchRecords = ?old @ [\<lparr>rec_Amount = amt, rec_Price = price\<rparr>]\<rparr>"
  from assms(3) have le: "amt \<le> OpenAmount ctx order" and c: "ctx' = ctx(order \<mapsto> ?new)"
    by (simp_all add: MatchOrder_Inr)
  have open_eq: "OpenAmount ctx order = GetAmount order - sum_list (map rec_Amount ?old)"
  proof (cases "ctx order")
    case None
    then show ?thesis by (simp add: OpenAmount_def)
  next
    case (Some mr0)
    then show ?thesis
      using ctx_invD [OF assms(1) Some] by (simp add: OpenAmount_def records_total_def)
  qed
  have new_ok: "mr_OpenAmount ?new = GetAmount order - records_total ?new \<and> 0 \<le> mr_OpenAmount ?new"
    using open_eq le by (simp add: records_total_def)
  have "ctx_inv ctx'"
    unfolding ctx_inv_def
  proof (intro allI impI)
    fix x mr assume s: "ctx' x = Some mr"
    show "mr_OpenAmount mr = GetAmount x - records_total mr \<and> 0 \<le> mr_OpenAmount mr"
    proof (cases "x = order")
      case False
      with s c have "ctx x = Some mr" by simp
      then show ?thesis by (rule ctx_invD [OF assms(1)])
    next
      case True
      with s c have "mr = ?new" by simp
      with new_ok True show ?thesis by simp
    qed
  qed
  moreover have "\<forall>x. OpenAmount ctx' x \<le> OpenAmount ctx x"
  proof
    fix x
    show "OpenAmount ctx' x \<le> OpenAmount ctx x"
    proof (cases "x = order")
      case True
      have "OpenAmount ctx' order = OpenAmount ctx order - amt"
        unfolding c by (simp add: OpenAmount_def)
      with assms(2) True show ?thesis by simp
    next
      case False
      then have "OpenAmount ctx' x = OpenAmount ctx x"
        unfolding c by (simp add: OpenAmount_def)
      then show ?thesis by simp
    qed
  qed
  ultimately show ?thesis by simp
qed

lemma MatchOrder_all_open:
  "\<exists>ctx'. MatchOrder ctx order (OpenAmount ctx order) price = Inr ctx'"
  by (simp add: MatchOrder_Inr)

lemma MatchOrderFull_total: "\<exists>ctx'. MatchOrderFull ctx order price = Inr ctx'"
  using MatchOrder_all_open [of ctx order price] by (simp add: MatchOrderFull_def)

lemma MatchOrdersFull_total: "\<exists>ctx'. MatchOrdersFull ctx orders price = Inr ctx'"
proof (induction orders arbitrary: ctx)
  case Nil
  show ?case by simp
next
  case (Cons order orders)
  from MatchOrderFull_total [of ctx order price] obtain ctx1 where
    "MatchOrderFull ctx order price = Inr ctx1" by blast
  with Cons [of ctx1] show ?case by simp
qed

lemma MatchOrderFull_keeps:
  assumes "ctx_inv ctx" "MatchOrderFull ctx order price = Inr ctx'"
  shows "ctx_inv ctx' \<and> (\<forall>x. OpenAmount ctx' x \<le> OpenAmount ctx x)"
proof (cases "0 < OpenAmount ctx order")
  case True
  then have "MatchOrder ctx order (OpenAmount ctx order) price = Inr ctx'"
    using assms(2) by (simp add: MatchOrderFull_def)
  then show ?thesis
    using MatchOrder_keeps [OF assms(1), of "OpenAmount ctx order" order price ctx'] True by simp
next
  case False
  then show ?thesis using assms by (simp add: MatchOrderFull_def)
qed

lemma MatchOrdersFull_keeps:
  "ctx_inv ctx \<Longrightarrow> MatchOrdersFull ctx orders price = Inr ctx' \<Longrightarrow>
     ctx_inv ctx' \<and> (\<forall>x. OpenAmount ctx' x \<le> OpenAmount ctx x)"
proof (induction orders arbitrary: ctx)
  case Nil
  then show ?case by simp
next
  case (Cons order orders)
  from Cons.prems(2) obtain ctx1 where
    s1: "MatchOrderFull ctx order price = Inr ctx1" and
    s2: "MatchOrdersFull ctx1 orders price = Inr ctx'"
    by (auto split: sum.splits)
  from MatchOrderFull_keeps [OF Cons.prems(1) s1]
  have k1: "ctx_inv ctx1" "\<forall>x. OpenAmount ctx1 x \<le> OpenAmount ctx x" by simp_all
  from Cons.IH [OF k1(1) s2] have k2: "ctx_inv ctx'" "\<forall>x. OpenAmount ctx' x \<le> OpenAmount ctx1 x"
    by simp_all
  have "\<forall>x. OpenAmount ctx' x \<le> OpenAmount ctx x"
  proof
    fix x
    from k2(2) have "OpenAmount ctx' x \<le> OpenAmount ctx1 x" ..
    also from k1(2) have "\<dots> \<le> OpenAmount ctx x" ..
    finally show "OpenAmount ctx' x \<le> OpenAmount ctx x" .
  qed
  with k2(1) show ?case by simp
qed

lemma apply_op_keeps:
  assumes "ctx_inv ctx" "op_amount_nonneg op" "apply_op ctx op = Inr ctx'"
  shows "ctx_inv ctx' \<and> (\<forall>x. OpenAmount ctx' x \<le> OpenAmount ctx x)"
proof (cases op)
  case (OpMatchOrder order amt price)
  with assms show ?thesis using MatchOrder_keeps [of ctx amt order price ctx'] by simp
next
  case (OpMatchOrderFull order price)
  with assms show ?thesis using MatchOrderFull_keeps [of ctx order price ctx'] by simp
next
  case (OpMatchOrdersFull orders price)
  with assms show ?thesis using MatchOrdersFull_keeps [of ctx orders price ctx'] by simp
qed

text \<open>
  Claim C8.  Every sequence of \<open>MatchOrder\<close>, \<open>MatchOrderFull\<close> and \<open>MatchOrdersFull\<close>
  operations, with amounts that are not negative, run from a journal whose entries satisfy
  the invariant (the empty journal does), leaves a journal in which every entry has
  an open amount equal to the order's amount minus the sum of its match records' amounts
  and not negative; \<open>OpenAmount\<close> of no order has increased; and for an order absent from
  the journal \<open>OpenAmount\<close> is the order's amount.
\<close>

theorem MatchContext_invariant:
  assumes "ctx_inv ctx"
    and "list_all op_amount_nonneg ops"
    and "run_ops ctx ops = Inr ctx'"
  shows "ctx_inv ctx' \<and>
         (\<forall>order. OpenAmount ctx' order \<le> OpenAmount ctx order) \<and>
         (\<forall>order. ctx' order = None \<longrightarrow> OpenAmount ctx' order = GetAmount order)"
proof -
  have "ctx_inv ctx' \<and> (\<forall>order. OpenAmount ctx' order \<le> OpenAmount ctx order)"
    using assms
  proof (induction ops arbitrary: ctx)
    case Nil
    then show ?case by simp
  next
    case (Cons op ops)
    from Cons.prems(3) obtain ctx1 where
      s1: "apply_op ctx op = Inr ctx1" and s2: "run_ops ctx1 ops = Inr ctx'"
      by (auto split: sum.splits)
    from Cons.prems(2) have n: "op_amount_nonneg op" "list_all op_amount_nonneg ops"
      by simp_all
    from apply_op_keeps [OF Cons.prems(1) n(1) s1]
    have k1: "ctx_inv ctx1" "\<forall>x. OpenAmount ctx1 x \<le> OpenAmount ctx x" by simp_all
    from Cons.IH [OF k1(1) n(2) s2]
    have k2: "ctx_inv ctx'" "\<forall>x. OpenAmount ctx' x \<le> OpenAmount ctx1 x" by simp_all
    have "\<forall>x. OpenAmount ctx' x \<le> OpenAmount ctx x"
    proof
      fix x
      from k2(2) have "OpenAmount ctx' x \<le> OpenAmount ctx1 x" ..
      also from k1(2) have "\<dots> \<le> OpenAmount ctx x" ..
      finally show "OpenAmount ctx' x \<le> OpenAmount ctx x" .
    qed
    with k2(1) show ?case by simp
  qed
  then show ?thesis by (simp add: OpenAmount_def)
qed


lemma ex_ops_run: "run_ops NewMatchContext ex_ops = Inr ex_journal"
  by (simp add: ex_ops_def ex_journal_def NewMatchContext_def MatchOrderFull_def MatchOrder_def
      MatchOrder_st_def OpenAmount_def buy_order_def Let_def fun_upd_twist)

theorem MatchContext_invariant_witness:
  "ctx_inv NewMatchContext \<and> list_all op_amount_nonneg ex_ops \<and>
   run_ops NewMatchContext ex_ops = Inr ex_journal \<and>
   ctx_inv ex_journal \<and>
   OpenAmount ex_journal (buy_order 1 10) \<le> OpenAmount NewMatchContext (buy_order 1 10) \<and>
   OpenAmount ex_journal (buy_order 1 10) = 0 \<and>
   ex_journal (buy_order 3 8) = None \<and>
   OpenAmount ex_journal (buy_order 3 8) = GetAmount (buy_order 3 8)"
proof -
  have i: "ctx_inv NewMatchContext"
    by (simp add: ctx_inv_def NewMatchContext_def)
  have n: "list_all op_amount_nonneg ex_ops"
    by (simp add: ex_ops_def)
  have a: "ex_journal (buy_order 3 8) = None" "OpenAmount ex_journal (buy_order 1 10) = 0"
    "OpenAmount ex_journal (buy_order 3 8) = GetAmount (buy_order 3 8)"
    by (simp_all add: ex_journal_def buy_order_def OpenAmount_def)
  have b: "OpenAmount ex_journal (buy_order 1 10) \<le> OpenAmount NewMatchContext (buy_order 1 10)"
    using MatchContext_invariant [OF i n ex_ops_run] by blast
  have c: "ctx_inv ex_journal"
    using MatchContext_invariant [OF i n ex_ops_run] by blast
  from i n a b c ex_ops_run show ?thesis by blast
qed

section \<open>DistributeOrderAmount\<close>

text \<open>
  Modelled from the spec: \<open>TotalAmount\<close> of package \<open>amm\<close> is not among the sources.
  \<open>DistributeOrderAmount\<close> calls it with the order list alone, so it cannot read the
  journal; it is the sum of the amounts of the orders (their original quantities).
\<close>

definition TotalAmount :: "Order list \<Rightarrow> int" where
  "TotalAmount orders = sum_list (map GetAmount orders)"

text \<open>
  The first loop: \<open>matchedAmtByOrder\<close> and \<open>totalMatchedAmt\<close> are threaded through the
  orders.  The division panics when the total amount is zero.
\<close>

fun first_pass ::
  "MatchContext \<Rightarrow> int \<Rightarrow> int \<Rightarrow> Order list \<Rightarrow> (Order \<rightharpoonup> int) \<times> int \<Rightarrow> error + ((Order \<rightharpoonup> int) \<times> int)" where
  "first_pass ctx totalAmt amt [] st = Inr st"
| "first_pass ctx totalAmt amt (order # orders) (matchedAmtByOrder, totalMatchedAmt) =
     (let openAmt = OpenAmount ctx order
      in if openAmt = 0 then first_pass ctx totalAmt amt orders (matchedAmtByOrder, totalMatchedAmt)
         else
           (case QuoTruncate (ToDec (GetAmount order)) (ToDec totalAmt) of
              Inl e \<Rightarrow> Inl e
            | Inr proportion \<Rightarrow>
                let matchedAmt = min openAmt (TruncateInt (MulInt proportion amt))
                in if 0 < matchedAmt
                   then first_pass ctx totalAmt amt orders
                          (matchedAmtByOrder(order \<mapsto> matchedAmt), totalMatchedAmt + matchedAmt)
                   else first_pass ctx totalAmt amt orders (matchedAmtByOrder, totalMatchedAmt)))"

text \<open>The map lookup with the zero default that the second and third loop use.\<close>

definition matched_by :: "(Order \<rightharpoonup> int) \<Rightarrow> Order \<Rightarrow> int" where
  "matched_by matchedAmtByOrder order =
     (case matchedAmtByOrder order of None \<Rightarrow> 0 | Some matchedAmt \<Rightarrow> matchedAmt)"

text \<open>The second loop, with its \<open>break\<close> when nothing remains.\<close>

fun second_pass ::
  "MatchContext \<Rightarrow> Order list \<Rightarrow> (Order \<rightharpoonup> int) \<times> int \<Rightarrow> (Order \<rightharpoonup> int) \<times> int" where
  "second_pass ctx [] st = st"
| "second_pass ctx (order # orders) (matchedAmtByOrder, remainingAmt) =
     (if remainingAmt = 0 then (matchedAmtByOrder, remainingAmt)
      else
        let openAmt = OpenAmount ctx order;
            matchedAmt = min remainingAmt (min openAmt (GetAmount order));
            prevMatchedAmt = matched_by matchedAmtByOrder order
        in second_pass ctx orders
             (matchedAmtByOrder(order \<mapsto> prevMatchedAmt + matchedAmt), remainingAmt - matchedAmt))"

text \<open>The test of the third loop: the order goes to \<open>matchedOrders\<close>.\<close>

definition is_matched :: "dec \<Rightarrow> (Order \<rightharpoonup> int) \<Rightarrow> Order \<Rightarrow> bool" where
  "is_matched matchPrice matchedAmtByOrder order =
     (let matchedAmt = matched_by matchedAmtByOrder order
      in matchedAmt \<noteq> 0 \<and>
         (GetDirection order = Buy \<or> 0 < TruncateInt (MulInt matchPrice matchedAmt)))"

text \<open>
  The three loops up to the restart test: the shares, the matched orders and the orders
  that are not matched.
\<close>

definition allocate ::
  "MatchContext \<Rightarrow> Order list \<Rightarrow> dec \<Rightarrow> int \<Rightarrow> error + ((Order \<rightharpoonup> int) \<times> Order list \<times> Order list)" where
  "allocate ctx orders matchPrice amt =
     (case first_pass ctx (TotalAmount orders) amt orders (Map.empty, 0) of
        Inl e \<Rightarrow> Inl e
      | Inr (m1, totalMatchedAmt) \<Rightarrow>
          (case second_pass ctx orders (m1, amt - totalMatchedAmt) of
             (m2, remainingAmt) \<Rightarrow>
               Inr (m2, filter (is_matched matchPrice m2) orders,
                        filter (\<lambda>order. \<not> is_matched matchPrice m2 order) orders)))"

text \<open>
  The last loop ranges over the map \<open>matchedAmtByOrder\<close>, in an order the language leaves
  open.  Its keys are orders of the list, each once; the model takes them in the order of
  the list.  The calls are for different orders, and \<open>MatchOrder\<close> reads and writes only
  the entry of its order.
\<close>

fun commit_matched ::
  "MatchContext \<Rightarrow> (Order \<rightharpoonup> int) \<Rightarrow> Order list \<Rightarrow> dec \<Rightarrow> error + MatchContext" where
  "commit_matched ctx matchedAmtByOrder [] matchPrice = Inr ctx"
| "commit_matched ctx matchedAmtByOrder (order # orders) matchPrice =
     (case matchedAmtByOrder order of
        None \<Rightarrow> commit_matched ctx matchedAmtByOrder orders matchPrice
      | Some matchedAmt \<Rightarrow>
          (case MatchOrder ctx order matchedAmt matchPrice of
             Inl e \<Rightarrow> Inl e
           | Inr ctx' \<Rightarrow> commit_matched ctx' matchedAmtByOrder orders matchPrice))"

lemma allocate_shrinks:
  assumes "allocate ctx orders matchPrice amt = Inr (m, matchedOrders, notMatchedOrders)"
    and "notMatchedOrders \<noteq> []"
  shows "length matchedOrders < length orders"
proof -
  from assms(1) obtain p where
    "matchedOrders = filter p orders" "notMatchedOrders = filter (\<lambda>order. \<not> p order) orders"
    by (auto simp: allocate_def split: sum.splits prod.splits)
  moreover have "length (filter p orders) + length (filter (\<lambda>order. \<not> p order) orders) = length orders"
    by (rule sum_length_filter_compl)
  ultimately show ?thesis
    using assms(2) by (metis add.right_neutral length_0_conv linorder_neqE_nat not_add_less1 less_add_same_cancel1 length_greater_0_conv)
qed

function DistributeOrderAmount ::
  "MatchContext \<Rightarrow> Order list \<Rightarrow> dec \<Rightarrow> int \<Rightarrow> error + MatchContext" where
  "DistributeOrderAmount ctx orders matchPrice amt =
     (case allocate ctx orders matchPrice amt of
        Inl e \<Rightarrow> Inl e
      | Inr (matchedAmtByOrder, matchedOrders, notMatchedOrders) \<Rightarrow>
          if length notMatchedOrders > 0
          then DistributeOrderAmount ctx matchedOrders matchPrice amt
          else commit_matched ctx matchedAmtByOrder (remdups orders) matchPrice)"
  by pat_completeness auto
termination
proof (relation "measure (\<lambda>(ctx, orders, matchPrice, amt). length orders)", goal_cases)
  case 1
  show ?case by simp
next
  case (2 ctx orders matchPrice amt x m y matchedOrders notMatchedOrders)
  then show ?case
    using allocate_shrinks [of ctx orders matchPrice amt m matchedOrders notMatchedOrders]
    by simp
qed

declare DistributeOrderAmount.simps [simp del]

text \<open>
  The candidate lists of a call, one after another: the list it is given and the lists of
  its restarts.  The recursion is that of \<open>DistributeOrderAmount\<close>, under the same tests.
\<close>

function candidate_lists ::
  "MatchContext \<Rightarrow> Order list \<Rightarrow> dec \<Rightarrow> int \<Rightarrow> Order list list" where
  "candidate_lists ctx orders matchPrice amt =
     orders #
     (case allocate ctx orders matchPrice amt of
        Inl e \<Rightarrow> []
      | Inr (matchedAmtByOrder, matchedOrders, notMatchedOrders) \<Rightarrow>
          if length notMatchedOrders > 0
          then candidate_lists ctx matchedOrders matchPrice amt
          else [])"
  by pat_completeness auto
termination
proof (relation "measure (\<lambda>(ctx, orders, matchPrice, amt). length orders)", goal_cases)
  case 1
  show ?case by simp
next
  case (2 ctx orders matchPrice amt x m y matchedOrders notMatchedOrders)
  then show ?case
    using allocate_shrinks [of ctx orders matchPrice amt m matchedOrders notMatchedOrders]
    by simp
qed

declare candidate_lists.simps [simp del]

text \<open>The number of restarts: the recursive calls that a call makes, one after another.\<close>

definition DistributeOrderAmount_restarts ::
  "MatchContext \<Rightarrow> Order list \<Rightarrow> dec \<Rightarrow> int \<Rightarrow> nat" where
  "DistributeOrderAmount_restarts ctx orders matchPrice amt =
     length (candidate_lists ctx orders matchPrice amt) - 1"

text \<open>Sell orders used in the examples.\<close>

definition sell_order :: "nat \<Rightarrow> int \<Rightarrow> Order" where
  "sell_order n amt = \<lparr>order_id = n, GetDirection = Sell, GetPrice = Precision div 4, GetAmount = amt\<rparr>"

definition ex_sells :: "Order list" where
  "ex_sells = [sell_order 1 1, sell_order 2 1, sell_order 3 1, sell_order 4 1000]"

subsection \<open>Restarts of DistributeOrderAmount\<close>

lemma DistributeOrderAmount_stop:
  "allocate ctx orders P amt = Inl e \<Longrightarrow> DistributeOrderAmount ctx orders P amt = Inl e"
  "allocate ctx orders P amt = Inr (m, mo, []) \<Longrightarrow>
     DistributeOrderAmount ctx orders P amt = commit_matched ctx m (remdups orders) P"
  by (subst DistributeOrderAmount.simps, simp)+

lemma DistributeOrderAmount_restart:
  "allocate ctx orders P amt = Inr (m, mo, nmo) \<Longrightarrow> nmo \<noteq> [] \<Longrightarrow>
     DistributeOrderAmount ctx orders P amt = DistributeOrderAmount ctx mo P amt"
  by (subst DistributeOrderAmount.simps) simp

lemma candidate_lists_stop:
  "allocate ctx orders P amt = Inl e \<Longrightarrow> candidate_lists ctx orders P amt = [orders]"
  "allocate ctx orders P amt = Inr (m, mo, []) \<Longrightarrow> candidate_lists ctx orders P amt = [orders]"
  by (subst candidate_lists.simps, simp)+

lemma candidate_lists_restart:
  "allocate ctx orders P amt = Inr (m, mo, nmo) \<Longrightarrow> nmo \<noteq> [] \<Longrightarrow>
     candidate_lists ctx orders P amt = orders # candidate_lists ctx mo P amt"
  by (subst candidate_lists.simps) simp

lemma candidate_lists_nonempty: "candidate_lists ctx orders P amt \<noteq> []"
  by (subst candidate_lists.simps) simp

lemma candidate_lists_hd: "hd (candidate_lists ctx orders P amt) = orders"
  by (subst candidate_lists.simps) simp

lemma allocate_subset:
  assumes "allocate ctx orders P amt = Inr (m, mo, nmo)"
  shows "set mo \<subseteq> set orders"
  using assms by (auto simp: allocate_def split: sum.splits prod.splits)

lemma allocate_cases:
  obtains (err) e where "allocate ctx orders P amt = Inl e"
  | (stop) m mo where "allocate ctx orders P amt = Inr (m, mo, [])"
  | (restart) m mo nmo where "allocate ctx orders P amt = Inr (m, mo, nmo)" "nmo \<noteq> []"
proof (cases "allocate ctx orders P amt")
  case (Inl e)
  then show ?thesis by (rule err)
next
  case (Inr r)
  obtain m mo nmo where r: "r = (m, mo, nmo)" by (cases r) auto
  show ?thesis
  proof (cases "nmo = []")
    case True
    with Inr r show ?thesis by (intro stop [of m mo]) simp
  next
    case False
    with Inr r show ?thesis by (intro restart [of m mo nmo]) simp_all
  qed
qed

lemma candidate_lists_length:
  "length (candidate_lists ctx orders P amt) + length (last (candidate_lists ctx orders P amt))
     \<le> Suc (length orders)"
proof (induction ctx orders P amt rule: candidate_lists.induct)
  case (1 ctx orders P amt)
  show ?case
  proof (cases ctx orders P amt rule: allocate_cases)
    case (err e)
    show ?thesis by (simp add: candidate_lists_stop(1) [OF err])
  next
    case (stop m mo)
    show ?thesis by (simp add: candidate_lists_stop(2) [OF stop])
  next
    case (restart m mo nmo)
    from "1.IH" [OF restart(1) refl refl] restart(2)
    have "length (candidate_lists ctx mo P amt) + length (last (candidate_lists ctx mo P amt))
            \<le> Suc (length mo)" by simp
    moreover have "length mo < length orders"
      using allocate_shrinks [OF restart] .
    ultimately show ?thesis
      by (simp add: candidate_lists_restart [OF restart] candidate_lists_nonempty)
  qed
qed

lemma candidate_lists_last:
  "DistributeOrderAmount ctx orders P amt =
     DistributeOrderAmount ctx (last (candidate_lists ctx orders P amt)) P amt \<and>
   candidate_lists ctx (last (candidate_lists ctx orders P amt)) P amt =
     [last (candidate_lists ctx orders P amt)]"
proof (induction ctx orders P amt rule: candidate_lists.induct)
  case (1 ctx orders P amt)
  show ?case
  proof (cases ctx orders P amt rule: allocate_cases)
    case (err e)
    show ?thesis by (simp add: candidate_lists_stop(1) [OF err])
  next
    case (stop m mo)
    show ?thesis by (simp add: candidate_lists_stop(2) [OF stop])
  next
    case (restart m mo nmo)
    from "1.IH" [OF restart(1) refl refl] restart(2)
    show ?thesis
      by (simp add: candidate_lists_restart [OF restart] candidate_lists_nonempty
          DistributeOrderAmount_restart [OF restart])
  qed
qed


lemma candidate_lists_bound:
  "b \<in> set (candidate_lists ctx orders P amt) \<Longrightarrow> length b \<le> length orders \<and> set b \<subseteq> set orders"
proof (induction ctx orders P amt rule: candidate_lists.induct)
  case (1 ctx orders P amt)
  show ?case
  proof (cases ctx orders P amt rule: allocate_cases)
    case (err e)
    with "1.prems" show ?thesis by (simp add: candidate_lists_stop(1) [OF err])
  next
    case (stop m mo)
    with "1.prems" show ?thesis by (simp add: candidate_lists_stop(2) [OF stop])
  next
    case (restart m mo nmo)
    have lt: "length mo < length orders" using allocate_shrinks [OF restart] .
    have sub: "set mo \<subseteq> set orders" using allocate_subset [OF restart(1)] .
    from "1.prems" have "b = orders \<or> b \<in> set (candidate_lists ctx mo P amt)"
      by (simp add: candidate_lists_restart [OF restart])
    then show ?thesis
    proof
      assume "b = orders"
      then show ?thesis by simp
    next
      assume "b \<in> set (candidate_lists ctx mo P amt)"
      with "1.IH" [OF restart(1) refl refl] restart(2)
      have "length b \<le> length mo \<and> set b \<subseteq> set mo" by simp
      with lt sub show ?thesis by auto
    qed
  qed
qed

lemma candidate_lists_shrink:
  "sorted_wrt (\<lambda>a b. length b < length a \<and> set b \<subseteq> set a) (candidate_lists ctx orders P amt)"
proof (induction ctx orders P amt rule: candidate_lists.induct)
  case (1 ctx orders P amt)
  show ?case
  proof (cases ctx orders P amt rule: allocate_cases)
    case (err e)
    show ?thesis by (simp add: candidate_lists_stop(1) [OF err])
  next
    case (stop m mo)
    show ?thesis by (simp add: candidate_lists_stop(2) [OF stop])
  next
    case (restart m mo nmo)
    from "1.IH" [OF restart(1) refl refl] restart(2)
    have ih: "sorted_wrt (\<lambda>a b. length b < length a \<and> set b \<subseteq> set a) (candidate_lists ctx mo P amt)"
      by simp
    have lt: "length mo < length orders" using allocate_shrinks [OF restart] .
    have sub: "set mo \<subseteq> set orders" using allocate_subset [OF restart(1)] .
    have "\<forall>b\<in>set (candidate_lists ctx mo P amt). length b < length orders \<and> set b \<subseteq> set orders"
    proof
      fix b assume "b \<in> set (candidate_lists ctx mo P amt)"
      then have "length b \<le> length mo \<and> set b \<subseteq> set mo"
        by (rule candidate_lists_bound)
      with lt sub show "length b < length orders \<and> set b \<subseteq> set orders" by auto
    qed
    with ih show ?thesis
      by (simp add: candidate_lists_restart [OF restart])
  qed
qed


text \<open>
  Claim C4.  \<open>DistributeOrderAmount\<close> terminates for every order list: it is a total
  function, its recursion being well-founded on the length of the list.  Whenever the
  partition puts at least one order into \<open>notMatchedOrders\<close>, the call is the call on the
  matched orders only, a strictly shorter list, with the same amount.  The recursion makes
  at most \<open>length orders\<close> restarts; the candidate lists shrink strictly from one restart to
  the next, and the call returns what it returns on the last of them, which restarts no
  more.  When the last candidate list still has an order to commit to, the passes
  themselves, the first one counted, are at most \<open>length orders\<close>.
\<close>

theorem DistributeOrderAmount_terminates:
  "DistributeOrderAmount_restarts ctx orders matchPrice amt \<le> length orders \<and>
   (last (candidate_lists ctx orders matchPrice amt) \<noteq> [] \<longrightarrow>
      length (candidate_lists ctx orders matchPrice amt) \<le> length orders) \<and>
   hd (candidate_lists ctx orders matchPrice amt) = orders \<and>
   sorted_wrt (\<lambda>a b. length b < length a \<and> set b \<subseteq> set a)
     (candidate_lists ctx orders matchPrice amt) \<and>
   DistributeOrderAmount ctx orders matchPrice amt =
     DistributeOrderAmount ctx (last (candidate_lists ctx orders matchPrice amt)) matchPrice amt \<and>
   candidate_lists ctx (last (candidate_lists ctx orders matchPrice amt)) matchPrice amt =
     [last (candidate_lists ctx orders matchPrice amt)] \<and>
   (\<forall>m matchedOrders notMatchedOrders.
      allocate ctx orders matchPrice amt = Inr (m, matchedOrders, notMatchedOrders) \<and>
      notMatchedOrders \<noteq> [] \<longrightarrow>
        DistributeOrderAmount ctx orders matchPrice amt =
          DistributeOrderAmount ctx matchedOrders matchPrice amt \<and>
        matchedOrders = filter (is_matched matchPrice m) orders \<and>
        length matchedOrders < length orders)"
proof -
  let ?cl = "candidate_lists ctx orders matchPrice amt"
  have len: "length ?cl + length (last ?cl) \<le> Suc (length orders)"
    by (rule candidate_lists_length)
  then have "DistributeOrderAmount_restarts ctx orders matchPrice amt \<le> length orders"
    by (simp add: DistributeOrderAmount_restarts_def)
  moreover have "last ?cl \<noteq> [] \<longrightarrow> length ?cl \<le> length orders"
  proof
    assume "last ?cl \<noteq> []"
    then have "0 < length (last ?cl)" by simp
    with len show "length ?cl \<le> length orders" by linarith
  qed
  moreover have "\<forall>m matchedOrders notMatchedOrders.
      allocate ctx orders matchPrice amt = Inr (m, matchedOrders, notMatchedOrders) \<and>
      notMatchedOrders \<noteq> [] \<longrightarrow>
        DistributeOrderAmount ctx orders matchPrice amt =
          DistributeOrderAmount ctx matchedOrders matchPrice amt \<and>
        matchedOrders = filter (is_matched matchPrice m) orders \<and>
        length matchedOrders < length orders"
  proof (intro allI impI)
    fix m mo nmo
    assume a: "allocate ctx orders matchPrice amt = Inr (m, mo, nmo) \<and> nmo \<noteq> []"
    then have "mo = filter (is_matched matchPrice m) orders"
      by (auto simp: allocate_def split: sum.splits prod.splits)
    with a show "DistributeOrderAmount ctx orders matchPrice amt =
          DistributeOrderAmount ctx mo matchPrice amt \<and>
        mo = filter (is_matched matchPrice m) orders \<and> length mo < length orders"
      using DistributeOrderAmount_restart [of ctx orders matchPrice amt m mo nmo]
        allocate_shrinks [of ctx orders matchPrice amt m mo nmo] by simp
  qed
  ultimately show ?thesis
    using candidate_lists_hd [of ctx orders matchPrice amt]
      candidate_lists_shrink [of ctx orders matchPrice amt]
      candidate_lists_last [of ctx orders matchPrice amt]
    by simp
qed

lemma ex_sells_lists:
  "candidate_lists NewMatchContext ex_sells (Precision div 3) 1000 = [ex_sells, [sell_order 4 1000]]"
  by code_simp

lemma ex_sells_allocate:
  "map_sum id snd (allocate NewMatchContext ex_sells (Precision div 3) 1000) =
     Inr ([sell_order 4 1000], [sell_order 1 1, sell_order 2 1, sell_order 3 1])"
  by code_simp


theorem DistributeOrderAmount_terminates_witness:
  "candidate_lists NewMatchContext ex_sells (Precision div 3) 1000 = [ex_sells, [sell_order 4 1000]] \<and>
   DistributeOrderAmount_restarts NewMatchContext ex_sells (Precision div 3) 1000 = 1 \<and>
   (1::nat) \<le> length ex_sells \<and>
   last (candidate_lists NewMatchContext ex_sells (Precision div 3) 1000) \<noteq> [] \<and>
   length (candidate_lists NewMatchContext ex_sells (Precision div 3) 1000) \<le> length ex_sells \<and>
   map_sum id snd (allocate NewMatchContext ex_sells (Precision div 3) 1000) =
     Inr ([sell_order 4 1000], [sell_order 1 1, sell_order 2 1, sell_order 3 1]) \<and>
   DistributeOrderAmount NewMatchContext ex_sells (Precision div 3) 1000 =
     DistributeOrderAmount NewMatchContext [sell_order 4 1000] (Precision div 3) 1000"
  using DistributeOrderAmount_terminates [of NewMatchContext ex_sells "Precision div 3" 1000]
    ex_sells_lists ex_sells_allocate
  by (simp add: DistributeOrderAmount_restarts_def ex_sells_def)

section \<open>The passes of DistributeOrderAmount\<close>










subsection \<open>The two passes\<close>






















section \<open>FindMatchPrice\<close>

text \<open>
  \<open>sort.Search\<close> of the Go library: the binary search for the smallest index in
  \<open>[0, n)\<close> at which \<open>f\<close> holds, \<open>n\<close> when there is none.  The midpoint is
  \<open>(i + j) / 2\<close>; indices are far from the range of the machine integers.
\<close>

function Search_loop :: "(nat \<Rightarrow> bool) \<Rightarrow> nat \<Rightarrow> nat \<Rightarrow> nat" where
  "Search_loop f i j =
     (if i < j
      then let h = (i + j) div 2
           in if \<not> f h then Search_loop f (h + 1) j else Search_loop f i h
      else i)"
  by pat_completeness auto
termination
  by (relation "measure (\<lambda>(f, i, j). j - i)") auto

declare Search_loop.simps [simp del]

definition Search :: "nat \<Rightarrow> (nat \<Rightarrow> bool) \<Rightarrow> nat" where
  "Search n f = Search_loop f 0 n"

text \<open>
  \<open>findFirstTrueCondition\<close> searches from \<open>start\<close> towards \<open>end\<close>, upwards when
  \<open>start < end\<close> and downwards otherwise; \<open>None\<close> is \<open>found = false\<close>.
\<close>

definition findFirstTrueCondition :: "int \<Rightarrow> int \<Rightarrow> (int \<Rightarrow> bool) \<Rightarrow> int option" where
  "findFirstTrueCondition start end f =
     (if start < end
      then
        let i = start + int (Search (nat (end - start + 1)) (\<lambda>i. f (start + int i)))
        in if i > end then None else Some i
      else
        let i = start - int (Search (nat (start - end + 1)) (\<lambda>i. f (start - int i)))
        in if i < end then None else Some i)"

text \<open>
  The \<open>OrderSource\<close> interface, as the four functions the search calls.
\<close>

record OrderSource =
  HighestBuyPrice :: "dec option"
  LowestSellPrice :: "dec option"
  BuyAmountOver :: "dec \<Rightarrow> int"
  SellAmountUnder :: "dec \<Rightarrow> int"

text \<open>
  The tick functions of package \<open>amm\<close> (\<open>LowestTick\<close>, \<open>HighestTick\<close>, \<open>TickToIndex\<close>,
  \<open>TickFromIndex\<close>, \<open>RoundPrice\<close>) are not among the sources.  They are parameters of
  the model: the functions at the tick precision of the call.
\<close>

record TickPrecision =
  LowestTick :: dec
  HighestTick :: dec
  TickToIndex :: "dec \<Rightarrow> int"
  TickFromIndex :: "int \<Rightarrow> dec"
  RoundPrice :: "dec \<Rightarrow> dec"

definition FindMatchPrice :: "OrderSource \<Rightarrow> TickPrecision \<Rightarrow> dec option" where
  "FindMatchPrice os prec =
     (case HighestBuyPrice os of
        None \<Rightarrow> None
      | Some highestBuyPrice \<Rightarrow>
          (case LowestSellPrice os of
             None \<Rightarrow> None
           | Some lowestSellPrice \<Rightarrow>
               if highestBuyPrice < lowestSellPrice then None
               else
                 let lowestTickIdx = TickToIndex prec (LowestTick prec);
                     highestTickIdx = TickToIndex prec (HighestTick prec)
                 in (case findFirstTrueCondition lowestTickIdx highestTickIdx
                            (\<lambda>i. BuyAmountOver os (TickFromIndex prec (i + 1))
                                   \<le> SellAmountUnder os (TickFromIndex prec i)) of
                       None \<Rightarrow> None
                     | Some i \<Rightarrow>
                         (case findFirstTrueCondition highestTickIdx lowestTickIdx
                                 (\<lambda>i. BuyAmountOver os (TickFromIndex prec i)
                                        \<ge> SellAmountUnder os (TickFromIndex prec (i - 1))) of
                            None \<Rightarrow> None
                          | Some j \<Rightarrow>
                              let midTick = QuoInt64 (TickFromIndex prec i + TickFromIndex prec j) 2
                              in Some (RoundPrice prec midTick)))))"

text \<open>What the binary search returns, for a predicate that stays true once it is true.\<close>

definition search_post :: "nat \<Rightarrow> (nat \<Rightarrow> bool) \<Rightarrow> nat \<Rightarrow> bool" where
  "search_post n f r \<longleftrightarrow> r \<le> n \<and> (\<forall>k<r. \<not> f k) \<and> (r < n \<longrightarrow> f r)"

text \<open>
  The smallest and the largest index of a range at which a condition holds, and the two
  conditions of the search.
\<close>

definition smallest_in :: "int \<Rightarrow> int \<Rightarrow> (int \<Rightarrow> bool) \<Rightarrow> int \<Rightarrow> bool" where
  "smallest_in lo hi f i \<longleftrightarrow> lo \<le> i \<and> i \<le> hi \<and> f i \<and> (\<forall>k. lo \<le> k \<and> k < i \<longrightarrow> \<not> f k)"

definition largest_in :: "int \<Rightarrow> int \<Rightarrow> (int \<Rightarrow> bool) \<Rightarrow> int \<Rightarrow> bool" where
  "largest_in lo hi f j \<longleftrightarrow> lo \<le> j \<and> j \<le> hi \<and> f j \<and> (\<forall>k. j < k \<and> k \<le> hi \<longrightarrow> \<not> f k)"

definition buy_le_sell :: "TickPrecision \<Rightarrow> OrderSource \<Rightarrow> int \<Rightarrow> bool" where
  "buy_le_sell prec os i \<longleftrightarrow>
     BuyAmountOver os (TickFromIndex prec (i + 1)) \<le> SellAmountUnder os (TickFromIndex prec i)"

definition buy_ge_sell :: "TickPrecision \<Rightarrow> OrderSource \<Rightarrow> int \<Rightarrow> bool" where
  "buy_ge_sell prec os j \<longleftrightarrow>
     BuyAmountOver os (TickFromIndex prec j) \<ge> SellAmountUnder os (TickFromIndex prec (j - 1))"

text \<open>
  The monotonicity of an order source (buy amounts do not increase and sell amounts do
  not decrease with the price) and of the ticks (prices do not decrease with the index;
  the lowest tick is not above the highest).
\<close>

definition source_monotone :: "OrderSource \<Rightarrow> bool" where
  "source_monotone os \<longleftrightarrow>
     (\<forall>p q. p \<le> q \<longrightarrow> BuyAmountOver os q \<le> BuyAmountOver os p) \<and>
     (\<forall>p q. p \<le> q \<longrightarrow> SellAmountUnder os p \<le> SellAmountUnder os q)"

definition ticks_monotone :: "TickPrecision \<Rightarrow> bool" where
  "ticks_monotone prec \<longleftrightarrow>
     (\<forall>a b. a \<le> b \<longrightarrow> TickFromIndex prec a \<le> TickFromIndex prec b) \<and>
     TickToIndex prec (LowestTick prec) \<le> TickToIndex prec (HighestTick prec)"

text \<open>
  An example: a buy of 50 at price 12, a sell of 50 at price 8, on a grid whose tick of
  index \<open>i\<close> is the price \<open>i\<close>, from 0 to 20.
\<close>

definition ex_source :: OrderSource where
  "ex_source =
     \<lparr>HighestBuyPrice = Some 12, LowestSellPrice = Some 8,
      BuyAmountOver = (\<lambda>p. if p \<le> 12 then 50 else 0),
      SellAmountUnder = (\<lambda>p. if 8 \<le> p then 50 else 0)\<rparr>"

definition ex_ticks :: TickPrecision where
  "ex_ticks =
     \<lparr>LowestTick = 0, HighestTick = 20,
      TickToIndex = (\<lambda>p. p), TickFromIndex = (\<lambda>i. i), RoundPrice = (\<lambda>p. p)\<rparr>"

subsection \<open>The binary search finds the first index\<close>

lemma Search_loop_stop: "\<not> i < j \<Longrightarrow> Search_loop f i j = i"
  by (subst Search_loop.simps) simp

lemma Search_loop_right:
  "i < j \<Longrightarrow> \<not> f ((i + j) div 2) \<Longrightarrow> Search_loop f i j = Search_loop f ((i + j) div 2 + 1) j"
  by (subst Search_loop.simps) (simp add: Let_def)

lemma Search_loop_left:
  "i < j \<Longrightarrow> f ((i + j) div 2) \<Longrightarrow> Search_loop f i j = Search_loop f i ((i + j) div 2)"
  by (subst Search_loop.simps) (simp add: Let_def)

lemma Search_loop_spec:
  assumes mono: "\<forall>a b. a \<le> b \<and> b < n \<and> f a \<longrightarrow> f b"
  shows "i \<le> j \<Longrightarrow> j \<le> n \<Longrightarrow> \<forall>k<i. \<not> f k \<Longrightarrow> (j < n \<longrightarrow> f j) \<Longrightarrow>
     search_post n f (Search_loop f i j)"
proof (induction "j - i" arbitrary: i j rule: less_induct)
  case less
  show ?case
  proof (cases "i < j")
    case False
    with less.prems have "i = j" by simp
    with less.prems show ?thesis
      by (simp add: Search_loop_stop search_post_def)
  next
    case True
    define h where "h = (i + j) div 2"
    have hb: "i \<le> h" "h < j" using True by (simp_all add: h_def)
    show ?thesis
    proof (cases "f h")
      case False
      have nf: "\<forall>k<h + 1. \<not> f k"
      proof (intro allI impI)
        fix k assume "k < h + 1"
        then have kh: "k \<le> h" by simp
        show "\<not> f k"
        proof
          assume "f k"
          moreover have "h < n" using hb less.prems(2) by simp
          ultimately have "f h" using mono kh by blast
          with False show False by simp
        qed
      qed
      have eq: "Search_loop f i j = Search_loop f (h + 1) j"
        using True False unfolding h_def by (rule Search_loop_right)
      have "search_post n f (Search_loop f (h + 1) j)"
      proof (rule less.hyps)
        show "j - (h + 1) < j - i" using hb by simp
        show "h + 1 \<le> j" using hb by simp
        show "j \<le> n" by (rule less.prems(2))
        show "\<forall>k<h + 1. \<not> f k" by (rule nf)
        show "j < n \<longrightarrow> f j" by (rule less.prems(4))
      qed
      then show ?thesis by (simp only: eq)
    next
      case fh: True
      have eq: "Search_loop f i j = Search_loop f i h"
        using True fh unfolding h_def by (rule Search_loop_left)
      have "search_post n f (Search_loop f i h)"
      proof (rule less.hyps)
        show "h - i < j - i" using hb by simp
        show "i \<le> h" using hb by simp
        show "h \<le> n" using hb less.prems(2) by simp
        show "\<forall>k<i. \<not> f k" by (rule less.prems(3))
        show "h < n \<longrightarrow> f h" using fh by simp
      qed
      then show ?thesis by (simp only: eq)
    qed
  qed
qed

lemma Search_spec:
  assumes "\<forall>a b. a \<le> b \<and> b < n \<and> f a \<longrightarrow> f b"
  shows "search_post n f (Search n f)"
  unfolding Search_def using Search_loop_spec [OF assms, of 0 n] by simp


lemma search_up:
  assumes le: "lo \<le> hi"
    and mono: "\<forall>a b. lo \<le> a \<and> a \<le> b \<and> b \<le> hi \<and> f a \<longrightarrow> f b"
  defines "r \<equiv> Search (nat (hi - lo + 1)) (\<lambda>k. f (lo + int k))"
  shows "(lo + int r > hi \<longrightarrow> (\<forall>i. lo \<le> i \<and> i \<le> hi \<longrightarrow> \<not> f i)) \<and>
         (\<not> lo + int r > hi \<longrightarrow> f (lo + int r) \<and> (\<forall>k. lo \<le> k \<and> k < lo + int r \<longrightarrow> \<not> f k))"
proof -
  let ?n = "nat (hi - lo + 1)"
  let ?g = "\<lambda>k. f (lo + int k)"
  have m: "\<forall>a b. a \<le> b \<and> b < ?n \<and> ?g a \<longrightarrow> ?g b"
  proof (intro allI impI)
    fix a b :: nat assume h: "a \<le> b \<and> b < ?n \<and> ?g a"
    then have "lo \<le> lo + int a \<and> lo + int a \<le> lo + int b \<and> lo + int b \<le> hi \<and> f (lo + int a)"
      using le by auto
    with mono show "?g b" by blast
  qed
  from Search_spec [OF m] have post: "search_post ?n ?g r" by (simp add: r_def)
  then have rn: "r \<le> ?n" and none: "\<forall>k<r. \<not> ?g k" and hit: "r < ?n \<longrightarrow> ?g r"
    by (simp_all add: search_post_def)
  have below: "\<forall>k. lo \<le> k \<and> k < lo + int r \<longrightarrow> \<not> f k"
  proof (intro allI impI)
    fix k assume k: "lo \<le> k \<and> k < lo + int r"
    then have "nat (k - lo) < r" by auto
    with none have "\<not> f (lo + int (nat (k - lo)))" by blast
    with k show "\<not> f k" by simp
  qed
  show ?thesis
  proof (intro conjI impI)
    assume "lo + int r > hi"
    with below show "\<forall>i. lo \<le> i \<and> i \<le> hi \<longrightarrow> \<not> f i" by auto
  next
    assume "\<not> lo + int r > hi"
    then have "r < ?n" using le by auto
    with hit show "f (lo + int r)" by simp
  next
    show "\<forall>k. lo \<le> k \<and> k < lo + int r \<longrightarrow> \<not> f k" by (rule below)
  qed
qed

lemma search_down:
  assumes le: "lo \<le> hi"
    and mono: "\<forall>a b. lo \<le> a \<and> a \<le> b \<and> b \<le> hi \<and> f b \<longrightarrow> f a"
  defines "r \<equiv> Search (nat (hi - lo + 1)) (\<lambda>k. f (hi - int k))"
  shows "(hi - int r < lo \<longrightarrow> (\<forall>i. lo \<le> i \<and> i \<le> hi \<longrightarrow> \<not> f i)) \<and>
         (\<not> hi - int r < lo \<longrightarrow> f (hi - int r) \<and> (\<forall>k. hi - int r < k \<and> k \<le> hi \<longrightarrow> \<not> f k))"
proof -
  let ?n = "nat (hi - lo + 1)"
  let ?g = "\<lambda>k. f (hi - int k)"
  have m: "\<forall>a b. a \<le> b \<and> b < ?n \<and> ?g a \<longrightarrow> ?g b"
  proof (intro allI impI)
    fix a b :: nat assume h: "a \<le> b \<and> b < ?n \<and> ?g a"
    then have "lo \<le> hi - int b \<and> hi - int b \<le> hi - int a \<and> hi - int a \<le> hi \<and> f (hi - int a)"
      using le by auto
    with mono show "?g b" by blast
  qed
  from Search_spec [OF m] have post: "search_post ?n ?g r" by (simp add: r_def)
  then have rn: "r \<le> ?n" and none: "\<forall>k<r. \<not> ?g k" and hit: "r < ?n \<longrightarrow> ?g r"
    by (simp_all add: search_post_def)
  have above: "\<forall>k. hi - int r < k \<and> k \<le> hi \<longrightarrow> \<not> f k"
  proof (intro allI impI)
    fix k assume k: "hi - int r < k \<and> k \<le> hi"
    then have "nat (hi - k) < r" by auto
    with none have "\<not> f (hi - int (nat (hi - k)))" by blast
    with k show "\<not> f k" by simp
  qed
  show ?thesis
  proof (intro conjI impI)
    assume "hi - int r < lo"
    with above show "\<forall>i. lo \<le> i \<and> i \<le> hi \<longrightarrow> \<not> f i" by auto
  next
    assume "\<not> hi - int r < lo"
    then have "r < ?n" using le by auto
    with hit show "f (hi - int r)" by simp
  next
    show "\<forall>k. hi - int r < k \<and> k \<le> hi \<longrightarrow> \<not> f k" by (rule above)
  qed
qed


lemma findFirstTrueCondition_down:
  assumes le: "lo \<le> hi"
    and mono: "\<forall>a b. lo \<le> a \<and> a \<le> b \<and> b \<le> hi \<and> f b \<longrightarrow> f a"
  shows "(findFirstTrueCondition hi lo f = None \<longrightarrow> (\<forall>i. lo \<le> i \<and> i \<le> hi \<longrightarrow> \<not> f i)) \<and>
         (\<forall>j. findFirstTrueCondition hi lo f = Some j \<longrightarrow> largest_in lo hi f j)"
proof -
  define r where "r = Search (nat (hi - lo + 1)) (\<lambda>k. f (hi - int k))"
  have eq: "findFirstTrueCondition hi lo f = (if hi - int r < lo then None else Some (hi - int r))"
    using le by (simp add: findFirstTrueCondition_def Let_def r_def)
  note sd = search_down [OF le mono, folded r_def]
  show ?thesis
  proof (cases "hi - int r < lo")
    case True
    with sd have "\<forall>i. lo \<le> i \<and> i \<le> hi \<longrightarrow> \<not> f i" by blast
    with True show ?thesis by (simp add: eq)
  next
    case False
    with sd have "f (hi - int r)" "\<forall>k. hi - int r < k \<and> k \<le> hi \<longrightarrow> \<not> f k" by blast+
    with False have "largest_in lo hi f (hi - int r)"
      by (simp add: largest_in_def)
    with False show ?thesis by (simp add: eq)
  qed
qed

lemma findFirstTrueCondition_up:
  assumes le: "lo \<le> hi"
    and mono: "\<forall>a b. lo \<le> a \<and> a \<le> b \<and> b \<le> hi \<and> f a \<longrightarrow> f b"
  shows "(findFirstTrueCondition lo hi f = None \<longrightarrow> (\<forall>i. lo \<le> i \<and> i \<le> hi \<longrightarrow> \<not> f i)) \<and>
         (\<forall>i. findFirstTrueCondition lo hi f = Some i \<longrightarrow> smallest_in lo hi f i)"
proof (cases "lo < hi")
  case lt: True
  define r where "r = Search (nat (hi - lo + 1)) (\<lambda>k. f (lo + int k))"
  have eq: "findFirstTrueCondition lo hi f = (if lo + int r > hi then None else Some (lo + int r))"
    using lt by (simp add: findFirstTrueCondition_def Let_def r_def)
  note su = search_up [OF le mono, folded r_def]
  show ?thesis
  proof (cases "lo + int r > hi")
    case True
    with su have "\<forall>i. lo \<le> i \<and> i \<le> hi \<longrightarrow> \<not> f i" by blast
    with True show ?thesis by (simp add: eq)
  next
    case False
    with su have "f (lo + int r)" "\<forall>k. lo \<le> k \<and> k < lo + int r \<longrightarrow> \<not> f k" by blast+
    with False have "smallest_in lo hi f (lo + int r)"
      by (simp add: smallest_in_def)
    with False show ?thesis by (simp add: eq)
  qed
next
  case False
  with le have same: "hi = lo" by simp
  have m: "\<forall>a b. lo \<le> a \<and> a \<le> b \<and> b \<le> lo \<and> f b \<longrightarrow> f a"
  proof (intro allI impI)
    fix a b :: int assume h: "lo \<le> a \<and> a \<le> b \<and> b \<le> lo \<and> f b"
    then have "a = b" by linarith
    with h show "f a" by simp
  qed
  have "(findFirstTrueCondition lo lo f = None \<longrightarrow> (\<forall>i. lo \<le> i \<and> i \<le> lo \<longrightarrow> \<not> f i)) \<and>
         (\<forall>j. findFirstTrueCondition lo lo f = Some j \<longrightarrow> largest_in lo lo f j)"
    by (rule findFirstTrueCondition_down [OF order_refl m])
  moreover have "\<And>j. largest_in lo lo f j \<Longrightarrow> smallest_in lo lo f j"
    by (auto simp: largest_in_def smallest_in_def)
  ultimately show ?thesis
    unfolding same by blast
qed


lemma buy_le_sell_up:
  assumes "source_monotone os" "ticks_monotone prec"
  shows "\<forall>a b. lo \<le> a \<and> a \<le> b \<and> b \<le> hi \<and> buy_le_sell prec os a \<longrightarrow> buy_le_sell prec os b"
proof (intro allI impI)
  fix a b :: int assume h: "lo \<le> a \<and> a \<le> b \<and> b \<le> hi \<and> buy_le_sell prec os a"
  then have ab: "a \<le> b" by simp
  have t1: "TickFromIndex prec (a + 1) \<le> TickFromIndex prec (b + 1)"
    and t2: "TickFromIndex prec a \<le> TickFromIndex prec b"
    using assms(2) ab by (simp_all add: ticks_monotone_def)
  have "BuyAmountOver os (TickFromIndex prec (b + 1)) \<le> BuyAmountOver os (TickFromIndex prec (a + 1))"
    using assms(1) t1 unfolding source_monotone_def by blast
  also have "\<dots> \<le> SellAmountUnder os (TickFromIndex prec a)"
    using h by (simp add: buy_le_sell_def)
  also have "\<dots> \<le> SellAmountUnder os (TickFromIndex prec b)"
    using assms(1) t2 unfolding source_monotone_def by blast
  finally show "buy_le_sell prec os b" by (simp add: buy_le_sell_def)
qed

lemma buy_ge_sell_down:
  assumes "source_monotone os" "ticks_monotone prec"
  shows "\<forall>a b. lo \<le> a \<and> a \<le> b \<and> b \<le> hi \<and> buy_ge_sell prec os b \<longrightarrow> buy_ge_sell prec os a"
proof (intro allI impI)
  fix a b :: int assume h: "lo \<le> a \<and> a \<le> b \<and> b \<le> hi \<and> buy_ge_sell prec os b"
  then have ab: "a \<le> b" by simp
  have t1: "TickFromIndex prec (a - 1) \<le> TickFromIndex prec (b - 1)"
    and t2: "TickFromIndex prec a \<le> TickFromIndex prec b"
    using assms(2) ab by (simp_all add: ticks_monotone_def)
  have "SellAmountUnder os (TickFromIndex prec (a - 1)) \<le> SellAmountUnder os (TickFromIndex prec (b - 1))"
    using assms(1) t1 unfolding source_monotone_def by blast
  also have "\<dots> \<le> BuyAmountOver os (TickFromIndex prec b)"
    using h by (simp add: buy_ge_sell_def)
  also have "\<dots> \<le> BuyAmountOver os (TickFromIndex prec a)"
    using assms(1) t2 unfolding source_monotone_def by blast
  finally show "buy_ge_sell prec os a" by (simp add: buy_ge_sell_def)
qed

lemma smallest_in_unique: "smallest_in lo hi f i \<Longrightarrow> smallest_in lo hi f i' \<Longrightarrow> i = i'"
  unfolding smallest_in_def by (meson linorder_neqE_linordered_idom)

lemma largest_in_unique: "largest_in lo hi f j \<Longrightarrow> largest_in lo hi f j' \<Longrightarrow> j = j'"
  unfolding largest_in_def by (meson linorder_neqE_linordered_idom)

lemma FindMatchPrice_unfold:
  assumes "HighestBuyPrice os = Some highestBuyPrice" "LowestSellPrice os = Some lowestSellPrice"
    "lowestSellPrice \<le> highestBuyPrice"
  shows "FindMatchPrice os prec =
     (case findFirstTrueCondition (TickToIndex prec (LowestTick prec)) (TickToIndex prec (HighestTick prec))
             (buy_le_sell prec os) of
        None \<Rightarrow> None
      | Some i \<Rightarrow>
          (case findFirstTrueCondition (TickToIndex prec (HighestTick prec)) (TickToIndex prec (LowestTick prec))
                  (buy_ge_sell prec os) of
             None \<Rightarrow> None
           | Some j \<Rightarrow> Some (RoundPrice prec (QuoInt64 (TickFromIndex prec i + TickFromIndex prec j) 2))))"
proof -
  have a: "(\<lambda>i. BuyAmountOver os (TickFromIndex prec (i + 1)) \<le> SellAmountUnder os (TickFromIndex prec i))
      = buy_le_sell prec os"
    by (simp add: fun_eq_iff buy_le_sell_def)
  have b: "(\<lambda>i. BuyAmountOver os (TickFromIndex prec i) \<ge> SellAmountUnder os (TickFromIndex prec (i - 1)))
      = buy_ge_sell prec os"
    by (simp add: fun_eq_iff buy_ge_sell_def)
  show ?thesis
    using assms unfolding FindMatchPrice_def Let_def a b by (simp split: option.splits)
qed


text \<open>
  Claim C2.  For an order source whose highest buy price and lowest sell price both exist,
  the highest buy price not below the lowest sell price, with \<open>BuyAmountOver\<close> not
  increasing and \<open>SellAmountUnder\<close> not decreasing in the price, on monotone ticks:
  \<open>FindMatchPrice\<close> returns \<open>RoundPrice ((tick i + tick j) / 2)\<close>, where \<open>i\<close> is the smallest
  tick index in \<open>[L, H]\<close> with \<open>BuyAmountOver (tick (i + 1)) \<le> SellAmountUnder (tick i)\<close>
  and \<open>j\<close> is the largest tick index in \<open>[L, H]\<close> with
  \<open>BuyAmountOver (tick j) \<ge> SellAmountUnder (tick (j - 1))\<close>; the halving is that of the
  decimal.  If either index does not exist, that is if no index of \<open>[L, H]\<close> meets the
  condition, it returns no match.
\<close>

theorem FindMatchPrice_result:
  assumes hb: "HighestBuyPrice os = Some highestBuyPrice"
    and ls: "LowestSellPrice os = Some lowestSellPrice"
    and cross: "lowestSellPrice \<le> highestBuyPrice"
    and src: "source_monotone os"
    and ticks: "ticks_monotone prec"
  shows
    "(\<forall>i j. smallest_in (TickToIndex prec (LowestTick prec)) (TickToIndex prec (HighestTick prec))
              (buy_le_sell prec os) i \<and>
            largest_in (TickToIndex prec (LowestTick prec)) (TickToIndex prec (HighestTick prec))
              (buy_ge_sell prec os) j \<longrightarrow>
        FindMatchPrice os prec =
          Some (RoundPrice prec (QuoInt64 (TickFromIndex prec i + TickFromIndex prec j) 2))) \<and>
     ((\<nexists>i. smallest_in (TickToIndex prec (LowestTick prec)) (TickToIndex prec (HighestTick prec))
              (buy_le_sell prec os) i) \<or>
      (\<nexists>j. largest_in (TickToIndex prec (LowestTick prec)) (TickToIndex prec (HighestTick prec))
              (buy_ge_sell prec os) j) \<longrightarrow>
        FindMatchPrice os prec = None) \<and>
     ((\<nexists>i. smallest_in (TickToIndex prec (LowestTick prec)) (TickToIndex prec (HighestTick prec))
              (buy_le_sell prec os) i) \<longleftrightarrow>
      (\<forall>i. TickToIndex prec (LowestTick prec) \<le> i \<and> i \<le> TickToIndex prec (HighestTick prec)
            \<longrightarrow> \<not> buy_le_sell prec os i)) \<and>
     ((\<nexists>j. largest_in (TickToIndex prec (LowestTick prec)) (TickToIndex prec (HighestTick prec))
              (buy_ge_sell prec os) j) \<longleftrightarrow>
      (\<forall>j. TickToIndex prec (LowestTick prec) \<le> j \<and> j \<le> TickToIndex prec (HighestTick prec)
            \<longrightarrow> \<not> buy_ge_sell prec os j))"
proof -
  let ?L = "TickToIndex prec (LowestTick prec)"
  let ?H = "TickToIndex prec (HighestTick prec)"
  let ?c1 = "buy_le_sell prec os"
  let ?c2 = "buy_ge_sell prec os"
  have LH: "?L \<le> ?H" using ticks by (simp add: ticks_monotone_def)
  note up = findFirstTrueCondition_up [OF LH buy_le_sell_up [OF src ticks, of ?L ?H]]
  note down = findFirstTrueCondition_down [OF LH buy_ge_sell_down [OF src ticks, of ?L ?H]]
  note unf = FindMatchPrice_unfold [OF hb ls cross, of prec]
  have up_none: "findFirstTrueCondition ?L ?H ?c1 = None \<longleftrightarrow> (\<nexists>i. smallest_in ?L ?H ?c1 i)"
  proof
    assume "findFirstTrueCondition ?L ?H ?c1 = None"
    with up have "\<forall>i. ?L \<le> i \<and> i \<le> ?H \<longrightarrow> \<not> ?c1 i" by blast
    then show "\<nexists>i. smallest_in ?L ?H ?c1 i" by (auto simp: smallest_in_def)
  next
    assume n: "\<nexists>i. smallest_in ?L ?H ?c1 i"
    show "findFirstTrueCondition ?L ?H ?c1 = None"
    proof (cases "findFirstTrueCondition ?L ?H ?c1")
      case None then show ?thesis .
    next
      case (Some i)
      with up have "smallest_in ?L ?H ?c1 i" by blast
      with n show ?thesis by blast
    qed
  qed
  have down_none: "findFirstTrueCondition ?H ?L ?c2 = None \<longleftrightarrow> (\<nexists>j. largest_in ?L ?H ?c2 j)"
  proof
    assume "findFirstTrueCondition ?H ?L ?c2 = None"
    with down have "\<forall>i. ?L \<le> i \<and> i \<le> ?H \<longrightarrow> \<not> ?c2 i" by blast
    then show "\<nexists>j. largest_in ?L ?H ?c2 j" by (auto simp: largest_in_def)
  next
    assume n: "\<nexists>j. largest_in ?L ?H ?c2 j"
    show "findFirstTrueCondition ?H ?L ?c2 = None"
    proof (cases "findFirstTrueCondition ?H ?L ?c2")
      case None then show ?thesis .
    next
      case (Some j)
      with down have "largest_in ?L ?H ?c2 j" by blast
      with n show ?thesis by blast
    qed
  qed
  have p1: "\<forall>i j. smallest_in ?L ?H ?c1 i \<and> largest_in ?L ?H ?c2 j \<longrightarrow>
        FindMatchPrice os prec =
          Some (RoundPrice prec (QuoInt64 (TickFromIndex prec i + TickFromIndex prec j) 2))"
  proof (intro allI impI)
    fix i j assume h: "smallest_in ?L ?H ?c1 i \<and> largest_in ?L ?H ?c2 j"
    obtain i' where fi: "findFirstTrueCondition ?L ?H ?c1 = Some i'"
      using up_none h by (cases "findFirstTrueCondition ?L ?H ?c1") auto
    obtain j' where fj: "findFirstTrueCondition ?H ?L ?c2 = Some j'"
      using down_none h by (cases "findFirstTrueCondition ?H ?L ?c2") auto
    from up fi have "smallest_in ?L ?H ?c1 i'" by blast
    with h have i: "i' = i" using smallest_in_unique by blast
    from down fj have "largest_in ?L ?H ?c2 j'" by blast
    with h have j: "j' = j" using largest_in_unique by blast
    show "FindMatchPrice os prec =
          Some (RoundPrice prec (QuoInt64 (TickFromIndex prec i + TickFromIndex prec j) 2))"
      by (simp add: unf fi fj i j)
  qed
  have p2: "(\<nexists>i. smallest_in ?L ?H ?c1 i) \<or> (\<nexists>j. largest_in ?L ?H ?c2 j) \<longrightarrow>
        FindMatchPrice os prec = None"
  proof
    assume "(\<nexists>i. smallest_in ?L ?H ?c1 i) \<or> (\<nexists>j. largest_in ?L ?H ?c2 j)"
    then have "findFirstTrueCondition ?L ?H ?c1 = None \<or> findFirstTrueCondition ?H ?L ?c2 = None"
      using up_none down_none by simp
    then show "FindMatchPrice os prec = None"
      by (auto simp: unf split: option.splits)
  qed
  have p3: "(\<nexists>i. smallest_in ?L ?H ?c1 i) \<longleftrightarrow> (\<forall>i. ?L \<le> i \<and> i \<le> ?H \<longrightarrow> \<not> ?c1 i)"
  proof
    assume "\<nexists>i. smallest_in ?L ?H ?c1 i"
    then have "findFirstTrueCondition ?L ?H ?c1 = None" using up_none by simp
    with up show "\<forall>i. ?L \<le> i \<and> i \<le> ?H \<longrightarrow> \<not> ?c1 i" by blast
  next
    assume "\<forall>i. ?L \<le> i \<and> i \<le> ?H \<longrightarrow> \<not> ?c1 i"
    then show "\<nexists>i. smallest_in ?L ?H ?c1 i" by (auto simp: smallest_in_def)
  qed
  have p4: "(\<nexists>j. largest_in ?L ?H ?c2 j) \<longleftrightarrow> (\<forall>j. ?L \<le> j \<and> j \<le> ?H \<longrightarrow> \<not> ?c2 j)"
  proof
    assume "\<nexists>j. largest_in ?L ?H ?c2 j"
    then have "findFirstTrueCondition ?H ?L ?c2 = None" using down_none by simp
    with down show "\<forall>j. ?L \<le> j \<and> j \<le> ?H \<longrightarrow> \<not> ?c2 j" by blast
  next
    assume "\<forall>j. ?L \<le> j \<and> j \<le> ?H \<longrightarrow> \<not> ?c2 j"
    then show "\<nexists>j. largest_in ?L ?H ?c2 j" by (auto simp: largest_in_def)
  qed
  from p1 p2 p3 p4 show ?thesis by (intro conjI)
qed


lemma ex_source_monotone: "source_monotone ex_source"
  by (simp add: source_monotone_def ex_source_def)

lemma ex_ticks_monotone: "ticks_monotone ex_ticks"
  by (simp add: ticks_monotone_def ex_ticks_def)

lemma ex_smallest: "smallest_in 0 20 (buy_le_sell ex_ticks ex_source) 8"
  by (simp add: smallest_in_def buy_le_sell_def ex_ticks_def ex_source_def)

lemma ex_largest: "largest_in 0 20 (buy_ge_sell ex_ticks ex_source) 12"
  by (simp add: largest_in_def buy_ge_sell_def ex_ticks_def ex_source_def)

theorem FindMatchPrice_result_witness:
  "HighestBuyPrice ex_source = Some 12 \<and> LowestSellPrice ex_source = Some 8 \<and> (8::int) \<le> 12 \<and>
   source_monotone ex_source \<and> ticks_monotone ex_ticks \<and>
   TickToIndex ex_ticks (LowestTick ex_ticks) = 0 \<and> TickToIndex ex_ticks (HighestTick ex_ticks) = 20 \<and>
   smallest_in 0 20 (buy_le_sell ex_ticks ex_source) 8 \<and>
   largest_in 0 20 (buy_ge_sell ex_ticks ex_source) 12 \<and>
   FindMatchPrice ex_source ex_ticks = Some 10"
proof -
  have hb: "HighestBuyPrice ex_source = Some 12" and ls: "LowestSellPrice ex_source = Some 8"
    by (simp_all add: ex_source_def)
  have c: "(8::int) \<le> 12" by simp
  have idx: "TickToIndex ex_ticks (LowestTick ex_ticks) = 0" "TickToIndex ex_ticks (HighestTick ex_ticks) = 20"
    by (simp_all add: ex_ticks_def)
  from FindMatchPrice_result [OF hb ls c ex_source_monotone ex_ticks_monotone]
  have "\<forall>i j. smallest_in 0 20 (buy_le_sell ex_ticks ex_source) i \<and>
            largest_in 0 20 (buy_ge_sell ex_ticks ex_source) j \<longrightarrow>
        FindMatchPrice ex_source ex_ticks =
          Some (RoundPrice ex_ticks (QuoInt64 (TickFromIndex ex_ticks i + TickFromIndex ex_ticks j) 2))"
    unfolding idx by blast
  with ex_smallest ex_largest have
    "FindMatchPrice ex_source ex_ticks =
       Some (RoundPrice ex_ticks (QuoInt64 (TickFromIndex ex_ticks 8 + TickFromIndex ex_ticks 12) 2))"
    by blast
  then have "FindMatchPrice ex_source ex_ticks = Some 10"
    by (simp add: ex_ticks_def QuoInt64_def Quo_def)
  with hb ls c ex_source_monotone ex_ticks_monotone idx ex_smallest ex_largest
  show ?thesis by blast
qed

end
